theory Spec2Isabelle
  imports Complex_Main "HOL-Library.AList" "HOL-Library.Char_ord" "HOL-Library.List_Lexorder"
    "HOL-Library.Multiset"
begin

section \<open>Configuration: the ignore rules (package config)\<close>

text \<open>
  The Go struct \<^verbatim>\<open>Config\<close> holds two string slices. Strings are byte strings, modelled as
  \<^typ>\<open>string\<close>.
\<close>

record Config =
  IgnoreFields :: "string list"
  IgnorePatterns :: "string list"

definition Default :: Config where
  "Default = \<lparr> IgnoreFields = [''id'', ''selfLink'', ''creationTimestamp'',
       ''lastModifiedTimestamp'', ''fingerprint'', ''kind'', ''etag''],
     IgnorePatterns = [''.*Timestamp$'', ''.*Fingerprint$''] \<rparr>"

text \<open>
  \<^verbatim>\<open>ShouldIgnore\<close> is a loop over \<^verbatim>\<open>c.IgnoreFields\<close> that returns true at the first field
  equal to the path, and false after the loop. \<^verbatim>\<open>IgnorePatterns\<close> is not read (the source
  has a TODO in its place).
\<close>

fun ShouldIgnore_loop :: "string list \<Rightarrow> string \<Rightarrow> bool" where
  "ShouldIgnore_loop [] fieldPath = False"
| "ShouldIgnore_loop (field # rest) fieldPath =
     (if field = fieldPath then True else ShouldIgnore_loop rest fieldPath)"

definition ShouldIgnore :: "Config \<Rightarrow> string \<Rightarrow> bool" where
  "ShouldIgnore c fieldPath = ShouldIgnore_loop (IgnoreFields c) fieldPath"

section \<open>Values and Go maps\<close>

text \<open>
  The documents are what \<^verbatim>\<open>encoding/json\<close> decodes into \<^verbatim>\<open>interface{}\<close>: nil, bool,
  float64, string, \<^verbatim>\<open>[]interface{}\<close> and \<^verbatim>\<open>map[string]interface{}\<close>. A decoded float64 is
  finite, so numbers are compared as the real numbers they denote. A Go map is modelled
  as an association list read with \<^const>\<open>map_of\<close>; \<open>mapKeys\<close> lists its keys once each.
\<close>

datatype val = Null | Bool bool | Number real | String string
  | Array "val list" | Object "(string \<times> val) list"

datatype gotype = TNil | TBool | TFloat64 | TString | TSlice | TMap

fun TypeOf :: "val \<Rightarrow> gotype" where
  "TypeOf Null = TNil"
| "TypeOf (Bool b) = TBool"
| "TypeOf (Number n) = TFloat64"
| "TypeOf (String s) = TString"
| "TypeOf (Array a) = TSlice"
| "TypeOf (Object m) = TMap"

text \<open>
  The type assertions \<^verbatim>\<open>val2.(map[string]interface{})\<close> and \<^verbatim>\<open>val2.([]interface{})\<close>. They
  are only reached after the dynamic types were found equal, where they cannot fail.
\<close>

fun asMap :: "val \<Rightarrow> (string \<times> val) list" where
  "asMap (Object m) = m"
| "asMap _ = []"

fun asSlice :: "val \<Rightarrow> val list" where
  "asSlice (Array a) = a"
| "asSlice _ = []"

text \<open>
  \<^verbatim>\<open>v, exists := m[key]\<close>: the value (the zero value when the key is absent) and the
  presence flag.
\<close>

definition mapGet :: "(string \<times> 'a) list \<Rightarrow> string \<Rightarrow> 'a \<Rightarrow> 'a" where
  "mapGet m key zero = (case map_of m key of Some v \<Rightarrow> v | None \<Rightarrow> zero)"

definition mapHas :: "(string \<times> 'a) list \<Rightarrow> string \<Rightarrow> bool" where
  "mapHas m key = (map_of m key \<noteq> None)"

definition mapKeys :: "(string \<times> 'a) list \<Rightarrow> string list" where
  "mapKeys m = remdups (map fst m)"

section \<open>The diff tree and the Differ (package compare)\<close>

datatype DiffType = DiffTypeAdded | DiffTypeRemoved | DiffTypeModified | DiffTypeEqual

text \<open>
  \<^verbatim>\<open>Value1\<close> and \<^verbatim>\<open>Value2\<close> are \<^verbatim>\<open>interface{}\<close> fields: an unset field is nil, which is
  \<^const>\<open>Null\<close>. \<^verbatim>\<open>Children\<close> is a map from key to child; a nil and an empty map are both
  the empty list.
\<close>

datatype Diff = Diff (Path: string) (Type: DiffType) (Value1: val) (Value2: val)
  (Children: "(string \<times> Diff) list")

record Differ =
  config :: Config
  showAll :: bool

definition NewDiffer :: "Config option \<Rightarrow> bool \<Rightarrow> Differ" where
  "NewDiffer cfg sa =
     \<lparr> config = (case cfg of None \<Rightarrow> Default | Some c \<Rightarrow> c), showAll = sa \<rparr>"

text \<open>
  The two statements \<^verbatim>\<open>diff.Children[key] = child; diff.Type = DiffTypeModified\<close>.
\<close>

definition setChild :: "string \<Rightarrow> Diff \<Rightarrow> Diff \<Rightarrow> Diff" where
  "setChild key child diff =
     Diff (Path diff) DiffTypeModified (Value1 diff) (Value2 diff)
       (AList.update key child (Children diff))"

text \<open>
  \<^verbatim>\<open>fmt.Sprintf("%d", i)\<close> for an index \<open>i \<ge> 0\<close>: the decimal digits, most significant
  first.
\<close>

definition digit :: "nat \<Rightarrow> char" where
  "digit n = ''0123456789'' ! n"

fun itoa :: "nat \<Rightarrow> string" where
  "itoa n = (if n < 10 then [digit n] else itoa (n div 10) @ [digit (n mod 10)])"

declare itoa.simps [simp del]

text \<open>
  The three mutually recursive methods of \<^verbatim>\<open>Differ\<close>. Each loop is a fold of its body over
  the keys (the indices) with the diff under construction as state. Go enumerates the
  keys of a map in an unspecified order; the model takes them in ascending order. Every
  key is written at most once, so the resulting children map does not depend on that
  choice.
\<close>

function compareObjects ::
    "Differ \<Rightarrow> (string \<times> val) list \<Rightarrow> (string \<times> val) list \<Rightarrow> string \<Rightarrow> Diff"
  and compareValues :: "Differ \<Rightarrow> val \<Rightarrow> val \<Rightarrow> string \<Rightarrow> Diff"
  and compareArrays :: "Differ \<Rightarrow> val list \<Rightarrow> val list \<Rightarrow> string \<Rightarrow> Diff"
where
  "compareObjects d obj1 obj2 path =
     fold (\<lambda>key diff.
        let fieldPath = (if path \<noteq> [] then path @ ''.'' @ key else key) in
        if \<not> showAll d \<and> ShouldIgnore (config d) fieldPath then diff
        else if \<not> mapHas obj1 key \<and> mapHas obj2 key then
          setChild key (Diff fieldPath DiffTypeAdded Null (mapGet obj2 key Null) []) diff
        else if mapHas obj1 key \<and> \<not> mapHas obj2 key then
          setChild key (Diff fieldPath DiffTypeRemoved (mapGet obj1 key Null) Null []) diff
        else
          let childDiff =
                compareValues d (mapGet obj1 key Null) (mapGet obj2 key Null) fieldPath in
          if Type childDiff \<noteq> DiffTypeEqual then setChild key childDiff diff else diff)
      (sort (mapKeys (obj1 @ obj2)))
      (Diff path DiffTypeEqual Null Null [])"
| "compareValues d val1 val2 path =
     (if val1 = Null \<and> val2 = Null then Diff path DiffTypeEqual Null Null []
      else if val1 = Null then Diff path DiffTypeAdded Null val2 []
      else if val2 = Null then Diff path DiffTypeRemoved val1 Null []
      else if TypeOf val1 \<noteq> TypeOf val2 then Diff path DiffTypeModified val1 val2 []
      else (case val1 of
          Object v1 \<Rightarrow> compareObjects d v1 (asMap val2) path
        | Array v1 \<Rightarrow> compareArrays d v1 (asSlice val2) path
        | _ \<Rightarrow> if val1 = val2 then Diff path DiffTypeEqual Null Null []
               else Diff path DiffTypeModified val1 val2 []))"
| "compareArrays d arr1 arr2 path =
     (let maxLen = (if length arr2 > length arr1 then length arr2 else length arr1) in
      fold (\<lambda>i diff.
        let indexPath = path @ ''['' @ itoa i @ '']'';
            key = ''['' @ itoa i @ '']'' in
        if i < length arr1 \<and> i < length arr2 then
          let childDiff = compareValues d (arr1 ! i) (arr2 ! i) indexPath in
          if Type childDiff \<noteq> DiffTypeEqual then setChild key childDiff diff else diff
        else if i \<ge> length arr1 then
          setChild key (Diff indexPath DiffTypeAdded Null (arr2 ! i) []) diff
        else
          setChild key (Diff indexPath DiffTypeRemoved (arr1 ! i) Null []) diff)
      [0..<maxLen]
      (Diff path DiffTypeEqual Null Null []))"
  by pat_completeness auto
termination
proof (relation "measure (\<lambda>x. case x of
      Inl (d, obj1, obj2, path) \<Rightarrow> 2 * Suc (size_list (size_prod (\<lambda>x. 0) size) obj1)
    | Inr (Inl (d, val1, val2, path)) \<Rightarrow> 2 * size val1 + 1
    | Inr (Inr (d, arr1, arr2, path)) \<Rightarrow> 2 * Suc (size_list size arr1))", goal_cases)
  case 1
  show ?case by simp
next
  case (2 d obj1 obj2 path key diff fieldPath)
  have "size (mapGet m key Null) < Suc (size_list (size_prod (\<lambda>x. 0) size) m)"
    for m :: "(string \<times> val) list"
  proof (induction m)
    case Nil
    show ?case by (simp add: mapGet_def)
  next
    case (Cons p m)
    have "mapGet (p # m) key Null = snd p \<or> mapGet (p # m) key Null = mapGet m key Null"
      by (cases p) (simp add: mapGet_def)
    then show ?case using Cons.IH by (cases p) auto
  qed
  from this [of obj1] show ?case by simp
next
  case (3 d val1 val2 path x6)
  then show ?case by simp
next
  case (4 d val1 val2 path x5)
  then show ?case by simp
next
  case (5 d arr1 arr2 path maxLen i diff indexPath key)
  have "j < length a \<Longrightarrow> size (a ! j) < Suc (size_list size a)"
    for j and a :: "val list"
  proof (induction a arbitrary: j)
    case Nil
    then show ?case by simp
  next
    case (Cons x a)
    show ?case
    proof (cases j)
      case 0
      then show ?thesis by simp
    next
      case (Suc j')
      then have "j' < length a" using Cons.prems by simp
      from Cons.IH [OF this] show ?thesis using Suc by simp
    qed
  qed
  from this [of i arr1] 5 show ?case by simp
qed

declare compareObjects.simps [simp del]
declare compareValues.simps [simp del]
declare compareArrays.simps [simp del]

definition Compare :: "Differ \<Rightarrow> (string \<times> val) list \<Rightarrow> (string \<times> val) list \<Rightarrow> Diff" where
  "Compare d obj1 obj2 = compareObjects d obj1 obj2 ''''"

text \<open>
  \<^verbatim>\<open>GetAllDiffs\<close>: the node itself when it is a non-equal leaf, then the results for the
  children, the keys taken in the order of \<^verbatim>\<open>sort.Strings\<close>, which is the bytewise
  lexicographic order of \<^typ>\<open>string\<close>.
\<close>

function GetAllDiffs :: "Diff \<Rightarrow> Diff list" where
  "GetAllDiffs diff =
     (if Type diff \<noteq> DiffTypeEqual \<and> length (Children diff) = 0 then [diff] else []) @
     concat (map (\<lambda>key. case map_of (Children diff) key of
                              Some child \<Rightarrow> GetAllDiffs child
                            | None \<Rightarrow> [])
                 (sort (mapKeys (Children diff))))"
  by pat_completeness auto
termination
proof (relation "measure size", goal_cases)
  case 1
  show ?case by simp
next
  case (2 diff key child)
  have "map_of ch key = Some child \<Longrightarrow>
        size child < Suc (size_list (size_prod (\<lambda>x. 0) size) ch)"
    for ch :: "(string \<times> Diff) list"
  proof (induction ch)
    case Nil
    then show ?case by simp
  next
    case (Cons p ch)
    show ?case
    proof (cases "fst p = key")
      case True
      then show ?thesis using Cons.prems by (cases p) simp
    next
      case False
      then have "map_of ch key = Some child" using Cons.prems by (cases p) simp
      from Cons.IH [OF this] show ?thesis by simp
    qed
  qed
  from this [of "Children diff"] 2 show ?case by (cases diff) simp
qed

declare GetAllDiffs.simps [simp del]

section \<open>Notions used to state the properties\<close>

text \<open>All nodes of a diff tree, the root first.\<close>

fun allNodes :: "Diff \<Rightarrow> Diff list" where
  "allNodes (Diff p t v1 v2 ch) =
     Diff p t v1 v2 ch # concat (map (\<lambda>kc. allNodes (snd kc)) ch)"

text \<open>
  The tree with the two sides exchanged: Added and Removed trade places, and so do the
  before and after payloads, at every node.
\<close>

fun swapType :: "DiffType \<Rightarrow> DiffType" where
  "swapType DiffTypeAdded = DiffTypeRemoved"
| "swapType DiffTypeRemoved = DiffTypeAdded"
| "swapType DiffTypeModified = DiffTypeModified"
| "swapType DiffTypeEqual = DiffTypeEqual"

fun mirror :: "Diff \<Rightarrow> Diff" where
  "mirror (Diff p t v1 v2 ch) =
     Diff p (swapType t) v2 v1 (map (\<lambda>kc. (fst kc, mirror (snd kc))) ch)"

text \<open>The path of the field \<open>key\<close> of the object at \<open>path\<close>.\<close>

definition fieldPathOf :: "string \<Rightarrow> string \<Rightarrow> string" where
  "fieldPathOf path key = (if path \<noteq> [] then path @ ''.'' @ key else key)"

text \<open>The children stored by a loop: one entry for each key whose iteration stores one.\<close>

definition entries :: "('i \<Rightarrow> string) \<Rightarrow> ('i \<Rightarrow> Diff option) \<Rightarrow> 'i list \<Rightarrow> (string \<times> Diff) list" where
  "entries kf f keys = List.map_filter (\<lambda>k. map_option (Pair (kf k)) (f k)) keys"

text \<open>
  What one iteration of the loop of \<^const>\<open>compareObjects\<close> (of \<^const>\<open>compareArrays\<close>)
  stores under its key: the child, or nothing.
\<close>

definition objEntry ::
    "Differ \<Rightarrow> (string \<times> val) list \<Rightarrow> (string \<times> val) list \<Rightarrow> string \<Rightarrow> string \<Rightarrow> Diff option"
where
  "objEntry d obj1 obj2 path key =
     (let fieldPath = fieldPathOf path key in
      if \<not> showAll d \<and> ShouldIgnore (config d) fieldPath then None
      else if \<not> mapHas obj1 key \<and> mapHas obj2 key then
        Some (Diff fieldPath DiffTypeAdded Null (mapGet obj2 key Null) [])
      else if mapHas obj1 key \<and> \<not> mapHas obj2 key then
        Some (Diff fieldPath DiffTypeRemoved (mapGet obj1 key Null) Null [])
      else
        let childDiff =
              compareValues d (mapGet obj1 key Null) (mapGet obj2 key Null) fieldPath in
        if Type childDiff \<noteq> DiffTypeEqual then Some childDiff else None)"

definition indexKey :: "nat \<Rightarrow> string" where
  "indexKey i = ''['' @ itoa i @ '']''"

definition arrEntry :: "Differ \<Rightarrow> val list \<Rightarrow> val list \<Rightarrow> string \<Rightarrow> nat \<Rightarrow> Diff option" where
  "arrEntry d arr1 arr2 path i =
     (let indexPath = path @ indexKey i in
      if i < length arr1 \<and> i < length arr2 then
        let childDiff = compareValues d (arr1 ! i) (arr2 ! i) indexPath in
        if Type childDiff \<noteq> DiffTypeEqual then Some childDiff else None
      else if i \<ge> length arr1 then Some (Diff indexPath DiffTypeAdded Null (arr2 ! i) [])
      else Some (Diff indexPath DiffTypeRemoved (arr1 ! i) Null []))"

section \<open>Grouping by top-level field in the hierarchical renderer (output_v2.go)\<close>

text \<open>
  \<^verbatim>\<open>PrintGitStyleDiffV2\<close> first calls \<^verbatim>\<open>getTopLevelDiffs\<close>, which ranges over the map
  \<^verbatim>\<open>diff.Children\<close> without sorting its keys and, when two keys have the same top-level
  field, writes into the node met first: \<^verbatim>\<open>existing.Children[key] = child\<close> and possibly
  \<^verbatim>\<open>existing.Type = DiffTypeModified\<close>. \<^verbatim>\<open>existing\<close> is a pointer to a child of the root, so
  this assignment changes the tree that was passed in.

  The order in which Go enumerates the map is not determined by the program; it is the
  parameter \<open>order\<close> of the model, a list of the keys of the root. The result map holds
  pointers to children of the root: the model keeps, for each top-level field, the key of
  the root child it points to, and carries the children of the root as the state that the
  assignments update. A child inserted below another one is never itself written to during
  the same call, so copying it is the same as sharing it.
\<close>

text \<open>
  \<^verbatim>\<open>strings.IndexAny(path, ".[")\<close> and the slice up to that index: the longest prefix free of
  \<open>.\<close> and \<open>[\<close>.
\<close>

definition extractTopLevelField :: "string \<Rightarrow> string" where
  "extractTopLevelField path = takeWhile (\<lambda>c. c \<noteq> CHR ''.'' \<and> c \<noteq> CHR ''['') path"

text \<open>
  The body of the branch \<^verbatim>\<open>if existing, ok := result[topField]; ok\<close>, applied to the node
  \<^verbatim>\<open>existing\<close>.
\<close>

definition mergeChild :: "string \<Rightarrow> Diff \<Rightarrow> Diff \<Rightarrow> Diff" where
  "mergeChild key child existing =
     Diff (Path existing)
       (if Type child \<noteq> DiffTypeEqual then DiffTypeModified else Type existing)
       (Value1 existing) (Value2 existing)
       (AList.update key child (Children existing))"

text \<open>
  The state of the loop: \<open>result\<close> maps a top-level field to the key of the root child it
  points to, \<open>nodes\<close> are the children of the root.
\<close>

record TopLevel =
  result :: "(string \<times> string) list"
  nodes :: "(string \<times> Diff) list"

definition topLevelStep :: "string \<Rightarrow> TopLevel \<Rightarrow> TopLevel" where
  "topLevelStep key st =
     (case map_of (nodes st) key of
        None \<Rightarrow> st
      | Some child \<Rightarrow>
          let topField = extractTopLevelField key in
          (case map_of (result st) topField of
             Some owner \<Rightarrow>
               (case map_of (nodes st) owner of
                  Some existing \<Rightarrow>
                    st\<lparr>nodes := AList.update owner (mergeChild key child existing) (nodes st)\<rparr>
                | None \<Rightarrow> st)
           | None \<Rightarrow> st\<lparr>result := AList.update topField key (result st)\<rparr>))"

text \<open>
  The map returned (each pointer replaced by the node it points to when the loop ends) and
  the root as the loop leaves it.
\<close>

definition getTopLevelDiffs :: "string list \<Rightarrow> Diff \<Rightarrow> (string \<times> Diff) list \<times> Diff" where
  "getTopLevelDiffs order diff =
     (let st = fold topLevelStep order \<lparr>result = [], nodes = Children diff\<rparr> in
      (map (\<lambda>(topField, owner). (topField, mapGet (nodes st) owner diff)) (result st),
       Diff (Path diff) (Type diff) (Value1 diff) (Value2 diff) (nodes st)))"

section \<open>Further notions used to state the properties\<close>

text \<open>
  The test at the head of the loop of \<^const>\<open>compareObjects\<close>.
\<close>

definition ignores :: "Differ \<Rightarrow> string \<Rightarrow> bool" where
  "ignores d fieldPath \<longleftrightarrow> \<not> showAll d \<and> ShouldIgnore (config d) fieldPath"

text \<open>
  The number of differences reported for a tree.
\<close>

definition leafCount :: "Diff \<Rightarrow> nat" where
  "leafCount t = length (GetAllDiffs t)"

text \<open>
  Depth-first traversal in pre-order: a node, then its children in ascending order of their
  keys, the order being the one of \<^typ>\<open>string\<close> (bytewise lexicographic).
\<close>

function preorder :: "Diff \<Rightarrow> Diff list" where
  "preorder t =
     t # concat (map (\<lambda>key. case map_of (Children t) key of
                              Some child \<Rightarrow> preorder child
                            | None \<Rightarrow> [])
                 (sorted_list_of_set (fst ` set (Children t))))"
  by pat_completeness auto
termination
proof (relation "measure size", goal_cases)
  case 1
  show ?case by simp
next
  case (2 t key child)
  have "map_of ch key = Some child \<Longrightarrow>
        size child < Suc (size_list (size_prod (\<lambda>x. 0) size) ch)"
    for ch :: "(string \<times> Diff) list"
  proof (induction ch)
    case Nil
    then show ?case by simp
  next
    case (Cons p ch)
    show ?case
    proof (cases "fst p = key")
      case True
      then show ?thesis using Cons.prems by (cases p) simp
    next
      case False
      then have "map_of ch key = Some child" using Cons.prems by (cases p) simp
      from Cons.IH [OF this] show ?thesis by simp
    qed
  qed
  from this [of "Children t"] 2 show ?case by (cases t) simp
qed

declare preorder.simps [simp del]

text \<open>
  A leaf whose kind is not Equal.
\<close>

definition isChangedLeaf :: "Diff \<Rightarrow> bool" where
  "isChangedLeaf n \<longleftrightarrow> Type n \<noteq> DiffTypeEqual \<and> Children n = []"








section \<open>Lemmas about the model\<close>

text \<open>
  Writing a key that the map does not hold yet appends the entry.
\<close>

lemma update_fresh: "k \<notin> fst ` set al \<Longrightarrow> AList.update k v al = al @ [(k, v)]"
  by (induction al) auto

lemma entries_Nil [simp]: "entries kf f [] = []"
  by (simp add: entries_def)

lemma entries_Cons [simp]:
  "entries kf f (k # keys) =
     (case f k of None \<Rightarrow> entries kf f keys | Some c \<Rightarrow> (kf k, c) # entries kf f keys)"
  by (cases "f k") (simp_all add: entries_def)

lemma entries_append [simp]: "entries kf f (xs @ ys) = entries kf f xs @ entries kf f ys"
  by (induction xs) (simp_all split: option.split)

lemma set_entries: "set (entries kf f keys) = {(kf k, c) | k c. k \<in> set keys \<and> f k = Some c}"
  by (induction keys) (auto split: option.splits)

lemma entries_eq_Nil: "entries kf f keys = [] \<longleftrightarrow> (\<forall>k\<in>set keys. f k = None)"
  by (induction keys) (auto split: option.splits)

text \<open>
  A loop that stores at most one child per key, over distinct keys, builds the list of
  entries and sets the kind to Modified as soon as one is stored.
\<close>

lemma fold_setChild:
  "distinct (map kf keys) \<Longrightarrow> kf ` set keys \<inter> fst ` set ch = {} \<Longrightarrow>
   fold (\<lambda>k diff. case f k of None \<Rightarrow> diff | Some c \<Rightarrow> setChild (kf k) c diff) keys
     (Diff p t v1 v2 ch)
   = Diff p (if entries kf f keys = [] then t else DiffTypeModified) v1 v2
        (ch @ entries kf f keys)"
proof (induction keys arbitrary: t ch)
  case Nil
  then show ?case by simp
next
  case (Cons k keys)
  show ?case
  proof (cases "f k")
    case None
    then show ?thesis using Cons.IH [of ch t] Cons.prems by simp
  next
    case (Some c)
    have fresh: "kf k \<notin> fst ` set ch" using Cons.prems by auto
    have disj: "kf ` set keys \<inter> fst ` set (ch @ [(kf k, c)]) = {}" using Cons.prems by auto
    have d: "distinct (map kf keys)" using Cons.prems by simp
    show ?thesis
      using Cons.IH [OF d disj, of DiffTypeModified] Some fresh
      by (simp add: setChild_def update_fresh)
  qed
qed

lemma distinct_sort_mapKeys: "distinct (sort (mapKeys m))"
  by (simp add: mapKeys_def)

lemma set_mapKeys: "set (mapKeys m) = fst ` set m"
  by (simp add: mapKeys_def)

text \<open>
  The loops of \<^const>\<open>compareObjects\<close> and \<^const>\<open>compareArrays\<close> in closed form.
\<close>

lemma compareObjects_unfold:
  "compareObjects d obj1 obj2 path =
     Diff path
       (if entries (\<lambda>k. k) (objEntry d obj1 obj2 path) (sort (mapKeys (obj1 @ obj2))) = []
        then DiffTypeEqual else DiffTypeModified) Null Null
       (entries (\<lambda>k. k) (objEntry d obj1 obj2 path) (sort (mapKeys (obj1 @ obj2))))"
proof -
  have body: "(\<lambda>key diff.
        let fieldPath = (if path \<noteq> [] then path @ ''.'' @ key else key) in
        if \<not> showAll d \<and> ShouldIgnore (config d) fieldPath then diff
        else if \<not> mapHas obj1 key \<and> mapHas obj2 key then
          setChild key (Diff fieldPath DiffTypeAdded Null (mapGet obj2 key Null) []) diff
        else if mapHas obj1 key \<and> \<not> mapHas obj2 key then
          setChild key (Diff fieldPath DiffTypeRemoved (mapGet obj1 key Null) Null []) diff
        else
          let childDiff =
                compareValues d (mapGet obj1 key Null) (mapGet obj2 key Null) fieldPath in
          if Type childDiff \<noteq> DiffTypeEqual then setChild key childDiff diff else diff)
    = (\<lambda>k diff. case objEntry d obj1 obj2 path k of None \<Rightarrow> diff
                | Some c \<Rightarrow> setChild k c diff)"
    by (intro ext) (simp add: objEntry_def fieldPathOf_def Let_def)
  have dist: "distinct (map (\<lambda>k. k) (sort (mapKeys (obj1 @ obj2))))"
    using distinct_sort_mapKeys [of "obj1 @ obj2"] by simp
  show ?thesis
    unfolding compareObjects.simps [of d obj1 obj2 path] body
    using fold_setChild [OF dist, of "[]" "objEntry d obj1 obj2 path" path DiffTypeEqual Null Null]
    by simp
qed

text \<open>
  Decimal notation is injective, so distinct indices have distinct keys.
\<close>

lemma digit_inj: "a < 10 \<Longrightarrow> b < 10 \<Longrightarrow> digit a = digit b \<Longrightarrow> a = b"
proof -
  assume a: "a < 10" and b: "b < 10" and e: "digit a = digit b"
  have ca: "a = 0 \<or> a = 1 \<or> a = 2 \<or> a = 3 \<or> a = 4 \<or> a = 5 \<or> a = 6 \<or> a = 7 \<or> a = 8 \<or> a = 9"
    using a by arith
  have cb: "b = 0 \<or> b = 1 \<or> b = 2 \<or> b = 3 \<or> b = 4 \<or> b = 5 \<or> b = 6 \<or> b = 7 \<or> b = 8 \<or> b = 9"
    using b by arith
  show ?thesis using ca cb e by (auto simp: digit_def)
qed

lemma itoa_not_Nil: "itoa n \<noteq> []"
  by (subst itoa.simps) simp

lemma itoa_inj: "itoa n = itoa m \<Longrightarrow> n = m"
proof (induction n arbitrary: m rule: itoa.induct)
  case (1 n)
  show ?case
  proof (cases "n < 10")
    case n: True
    show ?thesis
    proof (cases "m < 10")
      case True
      then show ?thesis using n "1.prems" digit_inj [of n m]
        by (simp add: itoa.simps [of n] itoa.simps [of m])
    next
      case False
      then show ?thesis using n "1.prems" itoa_not_Nil [of "m div 10"]
        by (simp add: itoa.simps [of n] itoa.simps [of m] Cons_eq_append_conv)
    qed
  next
    case n: False
    show ?thesis
    proof (cases "m < 10")
      case True
      then show ?thesis using n "1.prems" itoa_not_Nil [of "n div 10"]
        by (simp add: itoa.simps [of n] itoa.simps [of m] append_eq_Cons_conv)
    next
      case False
      then have e: "itoa (n div 10) = itoa (m div 10)" and dg: "digit (n mod 10) = digit (m mod 10)"
        using n "1.prems" by (simp_all add: itoa.simps [of n] itoa.simps [of m])
      have "n div 10 = m div 10" using "1.IH" [OF n e] .
      moreover have "n mod 10 = m mod 10" using digit_inj [OF _ _ dg] by simp
      ultimately show ?thesis by (metis div_mult_mod_eq)
    qed
  qed
qed

lemma indexKey_inj: "indexKey i = indexKey j \<Longrightarrow> i = j"
  using itoa_inj by (simp add: indexKey_def)

lemma distinct_indexKeys: "distinct (map indexKey [0..<n])"
  by (simp add: distinct_map inj_on_def) (metis indexKey_inj)

lemma compareArrays_unfold:
  "compareArrays d arr1 arr2 path =
     Diff path
       (if entries indexKey (arrEntry d arr1 arr2 path) [0..<max (length arr1) (length arr2)] = []
        then DiffTypeEqual else DiffTypeModified) Null Null
       (entries indexKey (arrEntry d arr1 arr2 path) [0..<max (length arr1) (length arr2)])"
proof -
  have body: "(\<lambda>i diff.
        let indexPath = path @ ''['' @ itoa i @ '']'';
            key = ''['' @ itoa i @ '']'' in
        if i < length arr1 \<and> i < length arr2 then
          let childDiff = compareValues d (arr1 ! i) (arr2 ! i) indexPath in
          if Type childDiff \<noteq> DiffTypeEqual then setChild key childDiff diff else diff
        else if i \<ge> length arr1 then
          setChild key (Diff indexPath DiffTypeAdded Null (arr2 ! i) []) diff
        else
          setChild key (Diff indexPath DiffTypeRemoved (arr1 ! i) Null []) diff)
    = (\<lambda>i diff. case arrEntry d arr1 arr2 path i of None \<Rightarrow> diff
                | Some c \<Rightarrow> setChild (indexKey i) c diff)"
    by (intro ext) (simp add: arrEntry_def indexKey_def Let_def)
  have len: "(if length arr2 > length arr1 then length arr2 else length arr1)
      = max (length arr1) (length arr2)"
    by simp
  have "compareArrays d arr1 arr2 path =
      fold (\<lambda>i diff. case arrEntry d arr1 arr2 path i of None \<Rightarrow> diff
                | Some c \<Rightarrow> setChild (indexKey i) c diff)
        [0..<max (length arr1) (length arr2)] (Diff path DiffTypeEqual Null Null [])"
    apply (subst compareArrays.simps)
    apply (subst Let_def)
    apply (subst body)
    apply (subst len)
    apply (rule refl)
    done
  then show ?thesis
    using fold_setChild [OF distinct_indexKeys, of _ "[]" "arrEntry d arr1 arr2 path" path DiffTypeEqual Null Null]
    by simp
qed

lemma compareValues_unfold:
  "compareValues d val1 val2 path =
     (if val1 = Null \<and> val2 = Null then Diff path DiffTypeEqual Null Null []
      else if val1 = Null then Diff path DiffTypeAdded Null val2 []
      else if val2 = Null then Diff path DiffTypeRemoved val1 Null []
      else if TypeOf val1 \<noteq> TypeOf val2 then Diff path DiffTypeModified val1 val2 []
      else if TypeOf val1 = TMap then compareObjects d (asMap val1) (asMap val2) path
      else if TypeOf val1 = TSlice then compareArrays d (asSlice val1) (asSlice val2) path
      else if val1 = val2 then Diff path DiffTypeEqual Null Null []
      else Diff path DiffTypeModified val1 val2 [])"
  by (subst compareValues.simps) (cases val1; simp)

text \<open>
  Induction over the three comparison functions, with the recursive calls as hypotheses.
\<close>

lemma compare_induct [case_names Objects Values Arrays]:
  fixes P :: "Differ \<Rightarrow> (string \<times> val) list \<Rightarrow> (string \<times> val) list \<Rightarrow> string \<Rightarrow> bool"
    and Q :: "Differ \<Rightarrow> val \<Rightarrow> val \<Rightarrow> string \<Rightarrow> bool"
    and R :: "Differ \<Rightarrow> val list \<Rightarrow> val list \<Rightarrow> string \<Rightarrow> bool"
  assumes O: "\<And>d obj1 obj2 path.
      (\<And>key. key \<in> fst ` set (obj1 @ obj2) \<Longrightarrow>
          \<not> (\<not> showAll d \<and> ShouldIgnore (config d) (fieldPathOf path key)) \<Longrightarrow>
          mapHas obj1 key \<Longrightarrow> mapHas obj2 key \<Longrightarrow>
          Q d (mapGet obj1 key Null) (mapGet obj2 key Null) (fieldPathOf path key))
      \<Longrightarrow> P d obj1 obj2 path"
    and V: "\<And>d val1 val2 path.
      (TypeOf val1 = TMap \<Longrightarrow> TypeOf val2 = TMap \<Longrightarrow> P d (asMap val1) (asMap val2) path) \<Longrightarrow>
      (TypeOf val1 = TSlice \<Longrightarrow> TypeOf val2 = TSlice \<Longrightarrow> R d (asSlice val1) (asSlice val2) path) \<Longrightarrow>
      Q d val1 val2 path"
    and A: "\<And>d arr1 arr2 path.
      (\<And>i. i < length arr1 \<Longrightarrow> i < length arr2 \<Longrightarrow>
          Q d (arr1 ! i) (arr2 ! i) (path @ indexKey i))
      \<Longrightarrow> R d arr1 arr2 path"
  shows "P d obj1 obj2 path" and "Q d val1 val2 path" and "R d arr1 arr2 path"
proof (induction d obj1 obj2 path and d val1 val2 path and d arr1 arr2 path
    rule: compareObjects_compareValues_compareArrays.induct)
  case (1 d obj1 obj2 path)
  show ?case
  proof (rule O)
    fix key
    assume k: "key \<in> fst ` set (obj1 @ obj2)"
      and ni: "\<not> (\<not> showAll d \<and> ShouldIgnore (config d) (fieldPathOf path key))"
      and h1: "mapHas obj1 key" and h2: "mapHas obj2 key"
    have k': "key \<in> set (sort (mapKeys (obj1 @ obj2)))" using k by (simp add: set_mapKeys)
    show "Q d (mapGet obj1 key Null) (mapGet obj2 key Null) (fieldPathOf path key)"
      using "1.IH" [OF k' refl] ni h1 h2 by (simp add: fieldPathOf_def)
  qed
next
  case (2 d val1 val2 path)
  show ?case
  proof (rule V)
    assume t1: "TypeOf val1 = TMap" and t2: "TypeOf val2 = TMap"
    then obtain v1 where v1: "val1 = Object v1" by (cases val1) simp_all
    have "val2 \<noteq> Null" using t2 by auto
    then show "P d (asMap val1) (asMap val2) path"
      using "2.IH"(2) [of v1] v1 t2 by simp
  next
    assume t1: "TypeOf val1 = TSlice" and t2: "TypeOf val2 = TSlice"
    then obtain a1 where a1: "val1 = Array a1" by (cases val1) simp_all
    have "val2 \<noteq> Null" using t2 by auto
    then show "R d (asSlice val1) (asSlice val2) path"
      using "2.IH"(1) [of a1] a1 t2 by simp
  qed
next
  case (3 d arr1 arr2 path)
  show ?case
  proof (rule A)
    fix i
    assume i1: "i < length arr1" and i2: "i < length arr2"
    show "Q d (arr1 ! i) (arr2 ! i) (path @ indexKey i)"
      using "3.IH" [OF refl _ refl refl, of i] i1 i2 by (simp add: indexKey_def)
  qed
qed

lemma ShouldIgnore_loop_iff: "ShouldIgnore_loop fs p \<longleftrightarrow> p \<in> set fs"
  by (induction fs) auto

lemma map_fst_entries: "map fst (entries kf f keys) = map kf (filter (\<lambda>k. f k \<noteq> None) keys)"
  by (induction keys) (auto split: option.splits)

lemma distinct_entries: "distinct (map kf keys) \<Longrightarrow> distinct (map fst (entries kf f keys))"
  by (simp add: map_fst_entries distinct_map_filter)

lemma allNodes_set:
  "set (allNodes t) = {t} \<union> (\<Union>kc\<in>set (Children t). set (allNodes (snd kc)))"
  by (cases t) auto

lemma objEntry_cases:
  assumes "objEntry d obj1 obj2 path key = Some c"
  obtains (Added) "c = Diff (fieldPathOf path key) DiffTypeAdded Null (mapGet obj2 key Null) []"
      "\<not> mapHas obj1 key" "mapHas obj2 key"
  | (Removed) "c = Diff (fieldPathOf path key) DiffTypeRemoved (mapGet obj1 key Null) Null []"
      "mapHas obj1 key" "\<not> mapHas obj2 key"
  | (Both) "c = compareValues d (mapGet obj1 key Null) (mapGet obj2 key Null) (fieldPathOf path key)"
      "Type c \<noteq> DiffTypeEqual" "mapHas obj1 key = mapHas obj2 key"
  using assms by (auto simp: objEntry_def Let_def split: if_splits)

lemma objEntry_not_ignored:
  "objEntry d obj1 obj2 path key = Some c \<Longrightarrow>
   \<not> (\<not> showAll d \<and> ShouldIgnore (config d) (fieldPathOf path key))"
  by (auto simp: objEntry_def Let_def split: if_splits)

lemma arrEntry_cases:
  assumes "arrEntry d arr1 arr2 path i = Some c"
  obtains (Both) "c = compareValues d (arr1 ! i) (arr2 ! i) (path @ indexKey i)"
      "Type c \<noteq> DiffTypeEqual" "i < length arr1" "i < length arr2"
  | (Added) "c = Diff (path @ indexKey i) DiffTypeAdded Null (arr2 ! i) []" "length arr1 \<le> i"
  | (Removed) "c = Diff (path @ indexKey i) DiffTypeRemoved (arr1 ! i) Null []"
      "i < length arr1" "length arr2 \<le> i"
  using assms by (auto simp: arrEntry_def Let_def split: if_splits)

text \<open>
  Every node of a result is either a leaf whose payloads fit its kind, or a Modified node
  without payloads whose children have distinct keys and are all different from Equal.
\<close>

lemma allNodes_invariant:
  fixes I :: "Diff \<Rightarrow> bool"
  assumes leaf: "\<And>p t v1 v2. (t = DiffTypeEqual \<longrightarrow> v1 = Null \<and> v2 = Null) \<Longrightarrow>
        (t = DiffTypeAdded \<longrightarrow> v1 = Null) \<Longrightarrow> (t = DiffTypeRemoved \<longrightarrow> v2 = Null) \<Longrightarrow>
        (t = DiffTypeModified \<longrightarrow> v1 \<noteq> Null \<and> v2 \<noteq> Null) \<Longrightarrow> I (Diff p t v1 v2 [])"
    and inner: "\<And>p ch. ch \<noteq> [] \<Longrightarrow> distinct (map fst ch) \<Longrightarrow>
        (\<forall>kc\<in>set ch. Type (snd kc) \<noteq> DiffTypeEqual) \<Longrightarrow>
        I (Diff p DiffTypeModified Null Null ch)"
  shows "\<forall>n\<in>set (allNodes (compareObjects d obj1 obj2 path)). I n"
    and "\<forall>n\<in>set (allNodes (compareValues d val1 val2 path)). I n"
    and "\<forall>n\<in>set (allNodes (compareArrays d arr1 arr2 path)). I n"
proof (induction d obj1 obj2 path and d val1 val2 path and d arr1 arr2 path rule: compare_induct)
  case (Objects d obj1 obj2 path)
  let ?ch = "entries (\<lambda>k. k) (objEntry d obj1 obj2 path) (sort (mapKeys (obj1 @ obj2)))"
  have kids: "\<forall>n\<in>set (allNodes c). I n" "Type c \<noteq> DiffTypeEqual" if "(k, c) \<in> set ?ch" for k c
  proof -
    from that have e: "objEntry d obj1 obj2 path k = Some c" and k: "k \<in> fst ` set (obj1 @ obj2)"
      by (auto simp: set_entries set_mapKeys)
    from e show "\<forall>n\<in>set (allNodes c). I n"
    proof (cases rule: objEntry_cases)
      case Added
      then show ?thesis using leaf [of DiffTypeAdded Null] by simp
    next
      case Removed
      then show ?thesis using leaf [of DiffTypeRemoved _ Null] by simp
    next
      case Both
      then have "mapHas obj1 k" "mapHas obj2 k"
        using k by (auto simp: mapHas_def map_of_eq_None_iff image_Un)
      then show ?thesis using Objects [OF k objEntry_not_ignored [OF e]] Both by simp
    qed
    from e show "Type c \<noteq> DiffTypeEqual" by (cases rule: objEntry_cases) simp_all
  qed
  have dist: "distinct (map fst ?ch)"
    using distinct_entries [of "\<lambda>k. k" "sort (mapKeys (obj1 @ obj2))"]
      distinct_sort_mapKeys [of "obj1 @ obj2"] by simp
  have root: "I (compareObjects d obj1 obj2 path)"
  proof (cases "?ch = []")
    case True
    then show ?thesis using leaf [of DiffTypeEqual Null Null path]
      by (simp add: compareObjects_unfold)
  next
    case False
    have "\<forall>kc\<in>set ?ch. Type (snd kc) \<noteq> DiffTypeEqual"
      using kids(2) by auto
    from inner [OF False dist this, of path] show ?thesis using False
      by (simp add: compareObjects_unfold)
  qed
  show ?case
    using root kids(1)
    by (subst allNodes_set) (auto simp: compareObjects_unfold)
next
  case (Values d val1 val2 path)
  show ?case
    using Values leaf [of _ val1 val2 path] leaf [of DiffTypeEqual Null Null path]
      leaf [of DiffTypeAdded Null val2 path] leaf [of DiffTypeRemoved val1 Null path]
    by (subst compareValues_unfold) (auto)
next
  case (Arrays d arr1 arr2 path)
  let ?ch = "entries indexKey (arrEntry d arr1 arr2 path) [0..<max (length arr1) (length arr2)]"
  have kids: "\<forall>n\<in>set (allNodes c). I n" "Type c \<noteq> DiffTypeEqual" if "(k, c) \<in> set ?ch" for k c
  proof -
    from that obtain i where e: "arrEntry d arr1 arr2 path i = Some c"
      by (auto simp: set_entries)
    from e show "\<forall>n\<in>set (allNodes c). I n"
    proof (cases rule: arrEntry_cases)
      case Both
      then show ?thesis using Arrays [of i] by simp
    next
      case Added
      then show ?thesis using leaf [of DiffTypeAdded Null] by simp
    next
      case Removed
      then show ?thesis using leaf [of DiffTypeRemoved _ Null] by simp
    qed
    from e show "Type c \<noteq> DiffTypeEqual" by (cases rule: arrEntry_cases) simp_all
  qed
  have dist: "distinct (map fst ?ch)"
    using distinct_entries [OF distinct_indexKeys] .
  have root: "I (compareArrays d arr1 arr2 path)"
  proof (cases "?ch = []")
    case True
    then show ?thesis using leaf [of DiffTypeEqual Null Null path]
      by (simp add: compareArrays_unfold)
  next
    case False
    have "\<forall>kc\<in>set ?ch. Type (snd kc) \<noteq> DiffTypeEqual"
      using kids(2) by auto
    from inner [OF False dist this, of path] show ?thesis using False
      by (simp add: compareArrays_unfold)
  qed
  show ?case
    using root kids(1)
    by (subst allNodes_set) (auto simp: compareArrays_unfold)
qed

lemma map_of_entries:
  "inj_on kf (insert k (set keys)) \<Longrightarrow>
   map_of (entries kf f keys) (kf k) = (if k \<in> set keys then f k else None)"
proof (induction keys)
  case Nil
  show ?case by simp
next
  case (Cons a keys)
  have inj: "inj_on kf (insert k (set keys))"
    using Cons.prems by (auto simp: inj_on_def)
  have eq: "kf a = kf k \<longleftrightarrow> a = k" using Cons.prems by (auto simp: inj_on_def)
  show ?case
  proof (cases "a = k")
    case True
    have "k \<notin> set keys \<Longrightarrow> map_of (entries kf f keys) (kf k) = None"
      using Cons.IH [OF inj] by simp
    moreover have "k \<in> set keys \<Longrightarrow> map_of (entries kf f keys) (kf k) = f k"
      using Cons.IH [OF inj] by simp
    ultimately show ?thesis using True by (cases "f k") auto
  next
    case False
    then show ?thesis using Cons.IH [OF inj] eq by (cases "f a") auto
  qed
qed

text \<open>
  The children of an object node and of an array node as maps. The first equation does not
  mention the order in which the keys were enumerated.
\<close>

lemma Children_compareObjects:
  "map_of (Children (compareObjects d obj1 obj2 path)) key =
     (if mapHas obj1 key \<or> mapHas obj2 key then objEntry d obj1 obj2 path key else None)"
proof -
  have "key \<in> set (sort (mapKeys (obj1 @ obj2))) \<longleftrightarrow> mapHas obj1 key \<or> mapHas obj2 key"
    by (auto simp: set_mapKeys mapHas_def map_of_eq_None_iff image_Un)
  then show ?thesis
    using map_of_entries [of "\<lambda>k. k" key "sort (mapKeys (obj1 @ obj2))" "objEntry d obj1 obj2 path"]
    by (simp add: compareObjects_unfold)
qed

lemma Children_compareArrays:
  "map_of (Children (compareArrays d arr1 arr2 path)) (indexKey i) =
     (if i < length arr1 \<or> i < length arr2 then arrEntry d arr1 arr2 path i else None)"
proof -
  have "inj_on indexKey (insert i (set [0..<max (length arr1) (length arr2)]))"
    using indexKey_inj by (auto simp: inj_on_def)
  from map_of_entries [OF this, of "arrEntry d arr1 arr2 path"] show ?thesis
    by (auto simp add: compareArrays_unfold)
qed

lemma compare_refl:
  fixes d :: Differ
  shows "obj1 = obj2 \<longrightarrow> compareObjects d obj1 obj2 path = Diff path DiffTypeEqual Null Null []"
    and "val1 = val2 \<longrightarrow> compareValues d val1 val2 path = Diff path DiffTypeEqual Null Null []"
    and "arr1 = arr2 \<longrightarrow> compareArrays d arr1 arr2 path = Diff path DiffTypeEqual Null Null []"
proof (induction d obj1 obj2 path and d val1 val2 path and d arr1 arr2 path rule: compare_induct)
  case (Objects d obj1 obj2 path)
  show ?case
  proof
    assume eq: "obj1 = obj2"
    have "objEntry d obj1 obj2 path key = None"
      if "key \<in> set (sort (mapKeys (obj1 @ obj2)))" for key
    proof -
      have k: "key \<in> fst ` set (obj1 @ obj2)" using that by (simp add: set_mapKeys)
      then have h: "mapHas obj1 key" "mapHas obj2 key"
        using eq by (auto simp: mapHas_def map_of_eq_None_iff)
      show ?thesis
      proof (cases "\<not> showAll d \<and> ShouldIgnore (config d) (fieldPathOf path key)")
        case True
        then show ?thesis by (simp add: objEntry_def)
      next
        case False
        from Objects [OF k False h] eq show ?thesis
          using h False by (simp add: objEntry_def Let_def)
      qed
    qed
    then have "entries (\<lambda>k. k) (objEntry d obj1 obj2 path) (sort (mapKeys (obj1 @ obj2))) = []"
      by (simp add: entries_eq_Nil)
    then show "compareObjects d obj1 obj2 path = Diff path DiffTypeEqual Null Null []"
      by (simp add: compareObjects_unfold)
  qed
next
  case (Values d val1 val2 path)
  show ?case
  proof
    assume eq: "val1 = val2"
    show "compareValues d val1 val2 path = Diff path DiffTypeEqual Null Null []"
      using Values eq by (subst compareValues_unfold) simp
  qed
next
  case (Arrays d arr1 arr2 path)
  show ?case
  proof
    assume eq: "arr1 = arr2"
    have "arrEntry d arr1 arr2 path i = None"
      if "i \<in> set [0..<max (length arr1) (length arr2)]" for i
    proof -
      have i: "i < length arr1" "i < length arr2" using that eq by simp_all
      from Arrays [OF i] eq i show ?thesis by (simp add: arrEntry_def Let_def)
    qed
    then have "entries indexKey (arrEntry d arr1 arr2 path)
        [0..<max (length arr1) (length arr2)] = []"
      by (simp add: entries_eq_Nil)
    then show "compareArrays d arr1 arr2 path = Diff path DiffTypeEqual Null Null []"
      by (simp add: compareArrays_unfold)
  qed
qed

lemma sort_mapKeys_commute: "sort (mapKeys (obj2 @ obj1)) = sort (mapKeys (obj1 @ obj2))"
proof (rule sorted_distinct_set_unique)
  show "set (sort (mapKeys (obj2 @ obj1))) = set (sort (mapKeys (obj1 @ obj2)))"
    by (auto simp: set_mapKeys)
qed (simp_all add: mapKeys_def)

lemma entries_map_option:
  "(\<And>k. k \<in> set keys \<Longrightarrow> g k = map_option h (f k)) \<Longrightarrow>
   entries kf g keys = map (\<lambda>kc. (fst kc, h (snd kc))) (entries kf f keys)"
proof (induction keys)
  case Nil
  show ?case by simp
next
  case (Cons k keys)
  have "g k = map_option h (f k)" using Cons.prems by simp
  moreover have "entries kf g keys = map (\<lambda>kc. (fst kc, h (snd kc))) (entries kf f keys)"
    using Cons.IH Cons.prems by simp
  ultimately show ?case by (cases "f k") simp_all
qed

lemma Type_mirror [simp]: "Type (mirror t) = swapType (Type t)"
  by (cases t) simp

lemma swapType_Equal [simp]: "swapType t = DiffTypeEqual \<longleftrightarrow> t = DiffTypeEqual"
  by (cases t) simp_all

lemma Path_mirror [simp]: "Path (mirror t) = Path t"
  by (cases t) simp

lemma allNodes_mirror: "allNodes (mirror t) = map mirror (allNodes t)"
proof (induction t)
  case (Diff p ty v1 v2 ch)
  have "map (\<lambda>kc. allNodes (mirror (snd kc))) ch = map (\<lambda>kc. map mirror (allNodes (snd kc))) ch"
  proof (rule map_cong [OF refl])
    fix kc assume kc: "kc \<in> set ch"
    have "snd kc \<in> Basic_BNFs.snds kc" by (cases kc) simp
    with Diff.IH kc show "allNodes (mirror (snd kc)) = map mirror (allNodes (snd kc))"
      by blast
  qed
  then have "concat (map (\<lambda>kc. allNodes (mirror (snd kc))) ch) =
      map mirror (concat (map (\<lambda>kc. allNodes (snd kc)) ch))"
    by (simp only: map_concat map_map comp_def)
  then show ?case by (simp add: comp_def)
qed

text \<open>
  Exchanging the operands mirrors the result.
\<close>

lemma compare_mirror:
  fixes d :: Differ
  shows "compareObjects d obj2 obj1 path = mirror (compareObjects d obj1 obj2 path)"
    and "compareValues d val2 val1 path = mirror (compareValues d val1 val2 path)"
    and "compareArrays d arr2 arr1 path = mirror (compareArrays d arr1 arr2 path)"
proof (induction d obj1 obj2 path and d val1 val2 path and d arr1 arr2 path rule: compare_induct)
  case (Objects d obj1 obj2 path)
  let ?keys = "sort (mapKeys (obj1 @ obj2))"
  have "objEntry d obj2 obj1 path key = map_option mirror (objEntry d obj1 obj2 path key)"
    if "key \<in> set ?keys" for key
  proof -
    have k: "key \<in> fst ` set (obj1 @ obj2)" using that by (simp add: set_mapKeys)
    show ?thesis
    proof (cases "\<not> showAll d \<and> ShouldIgnore (config d) (fieldPathOf path key)")
      case True
      then show ?thesis by (simp add: objEntry_def)
    next
      case ni: False
      show ?thesis
      proof (cases "mapHas obj1 key \<and> mapHas obj2 key")
        case True
        from Objects [OF k ni] True
        have "compareValues d (mapGet obj2 key Null) (mapGet obj1 key Null) (fieldPathOf path key)
            = mirror (compareValues d (mapGet obj1 key Null) (mapGet obj2 key Null)
                (fieldPathOf path key))"
          by simp
        then show ?thesis using True ni by (auto simp: objEntry_def Let_def)
      next
        case False
        moreover have "mapHas obj1 key \<or> mapHas obj2 key"
          using k by (auto simp: mapHas_def map_of_eq_None_iff)
        ultimately show ?thesis using ni by (auto simp: objEntry_def Let_def)
      qed
    qed
  qed
  then have "entries (\<lambda>k. k) (objEntry d obj2 obj1 path) ?keys =
      map (\<lambda>kc. (fst kc, mirror (snd kc))) (entries (\<lambda>k. k) (objEntry d obj1 obj2 path) ?keys)"
    by (rule entries_map_option)
  then show ?case
    by (simp add: compareObjects_unfold sort_mapKeys_commute [of obj2 obj1])
next
  case (Values d val1 val2 path)
  show ?case
    using Values
    by (auto simp: compareValues_unfold [of d val1 val2] compareValues_unfold [of d val2 val1])
next
  case (Arrays d arr1 arr2 path)
  let ?is = "[0..<max (length arr1) (length arr2)]"
  have "arrEntry d arr2 arr1 path i = map_option mirror (arrEntry d arr1 arr2 path i)"
    if "i \<in> set ?is" for i
  proof (cases "i < length arr1 \<and> i < length arr2")
    case True
    then show ?thesis using Arrays [of i] by (simp add: arrEntry_def Let_def)
  next
    case False
    then show ?thesis using that by (auto simp: arrEntry_def Let_def)
  qed
  then have "entries indexKey (arrEntry d arr2 arr1 path) ?is =
      map (\<lambda>kc. (fst kc, mirror (snd kc))) (entries indexKey (arrEntry d arr1 arr2 path) ?is)"
    by (rule entries_map_option)
  then show ?case
    by (simp add: compareArrays_unfold max.commute [of "length arr2"])
qed

lemma sum_list_sort:
  fixes g :: "'a::linorder \<Rightarrow> nat"
  shows "sum_list (map g (sort xs)) = sum_list (map g xs)"
proof -
  have "sum_list (map g (sort xs)) = sum_mset (mset (map g (sort xs)))"
    by (simp only: sum_mset_sum_list)
  also have "\<dots> = sum_mset (mset (map g xs))"
    by simp
  also have "\<dots> = sum_list (map g xs)"
    by (simp only: sum_mset_sum_list)
  finally show ?thesis .
qed

text \<open>
  Counting the reported differences.
\<close>

lemma leafCount_node:
  assumes dist: "distinct (map fst ch)"
  shows "leafCount (Diff p t v1 v2 ch) =
     (if t \<noteq> DiffTypeEqual \<and> ch = [] then 1 else 0) +
     sum_list (map (\<lambda>kc. leafCount (snd kc)) ch)"
proof -
  let ?g = "\<lambda>key. length (case map_of ch key of Some child \<Rightarrow> GetAllDiffs child | None \<Rightarrow> [])"
  have keys: "mapKeys ch = map fst ch"
    using dist by (simp add: mapKeys_def)
  have "map ?g (map fst ch) = map (\<lambda>kc. leafCount (snd kc)) ch"
  proof (simp only: map_map comp_def, rule map_cong [OF refl])
    fix kc assume kc: "kc \<in> set ch"
    have "map_of ch (fst kc) = Some (snd kc)"
      using dist kc by simp
    then show "?g (fst kc) = leafCount (snd kc)"
      by (simp add: leafCount_def)
  qed
  then have "sum_list (map ?g (sort (mapKeys ch))) = sum_list (map (\<lambda>kc. leafCount (snd kc)) ch)"
    by (simp only: sum_list_sort keys)
  then show ?thesis
    unfolding leafCount_def [of "Diff p t v1 v2 ch"]
    by (subst GetAllDiffs.simps) (simp add: length_concat comp_def)
qed

lemma sum_list_entries:
  fixes h :: "Diff \<Rightarrow> nat"
  shows "sum_list (map (\<lambda>kc. h (snd kc)) (entries kf f keys)) =
     sum_list (map (\<lambda>k. case f k of None \<Rightarrow> 0 | Some c \<Rightarrow> h c) keys)"
  by (induction keys) (simp_all split: option.split)

lemma leafCount_compareObjects:
  "leafCount (compareObjects d obj1 obj2 path) =
     sum_list (map (\<lambda>k. case objEntry d obj1 obj2 path k of None \<Rightarrow> 0 | Some c \<Rightarrow> leafCount c)
       (sort (mapKeys (obj1 @ obj2))))"
proof -
  have "distinct (map fst (entries (\<lambda>k. k) (objEntry d obj1 obj2 path)
      (sort (mapKeys (obj1 @ obj2)))))"
    using distinct_entries [of "\<lambda>k. k" "sort (mapKeys (obj1 @ obj2))"]
      distinct_sort_mapKeys [of "obj1 @ obj2"] by simp
  from leafCount_node [OF this] show ?thesis
    by (simp add: compareObjects_unfold sum_list_entries)
qed

lemma leafCount_compareArrays:
  "leafCount (compareArrays d arr1 arr2 path) =
     sum_list (map (\<lambda>i. case arrEntry d arr1 arr2 path i of None \<Rightarrow> 0 | Some c \<Rightarrow> leafCount c)
       [0..<max (length arr1) (length arr2)])"
proof -
  have "distinct (map fst (entries indexKey (arrEntry d arr1 arr2 path)
      [0..<max (length arr1) (length arr2)]))"
    using distinct_entries [OF distinct_indexKeys] .
  from leafCount_node [OF this] show ?thesis
    by (simp add: compareArrays_unfold sum_list_entries)
qed

lemma leafCount_Equal:
  assumes "Type (compareValues d val1 val2 path) = DiffTypeEqual"
  shows "leafCount (compareValues d val1 val2 path) = 0"
proof -
  let ?t = "compareValues d val1 val2 path"
  have "\<forall>n\<in>set (allNodes ?t). Type n = DiffTypeEqual \<longrightarrow> Children n = []"
    by (rule allNodes_invariant(2)) simp_all
  moreover have "?t \<in> set (allNodes ?t)" by (subst allNodes_set) simp
  ultimately have "Children ?t = []" using assms by blast
  then show ?thesis using assms
    unfolding leafCount_def by (subst GetAllDiffs.simps) (simp add: mapKeys_def)
qed

text \<open>
  A Differ that ignores at least the paths another one ignores reports at most as many
  differences.
\<close>

lemma compare_leafCount_mono:
  fixes d d' :: Differ
  assumes sub: "\<And>fp. ignores d fp \<Longrightarrow> ignores d' fp"
  shows "leafCount (compareObjects d' obj1 obj2 path) \<le> leafCount (compareObjects d obj1 obj2 path)"
    and "leafCount (compareValues d' val1 val2 path) \<le> leafCount (compareValues d val1 val2 path)"
    and "leafCount (compareArrays d' arr1 arr2 path) \<le> leafCount (compareArrays d arr1 arr2 path)"
  using sub
proof (induction d' obj1 obj2 path and d' val1 val2 path and d' arr1 arr2 path
    rule: compare_induct)
  case (Objects d' obj1 obj2 path)
  have "(case objEntry d' obj1 obj2 path key of None \<Rightarrow> 0 | Some c \<Rightarrow> leafCount c)
      \<le> (case objEntry d obj1 obj2 path key of None \<Rightarrow> 0 | Some c \<Rightarrow> leafCount c)"
    if "key \<in> set (sort (mapKeys (obj1 @ obj2)))" for key
  proof (cases "objEntry d' obj1 obj2 path key")
    case None
    then show ?thesis by simp
  next
    case (Some c')
    have k: "key \<in> fst ` set (obj1 @ obj2)" using that by (simp add: set_mapKeys)
    have ni': "\<not> (\<not> showAll d' \<and> ShouldIgnore (config d') (fieldPathOf path key))"
      using objEntry_not_ignored [OF Some] .
    then have ni: "\<not> (\<not> showAll d \<and> ShouldIgnore (config d) (fieldPathOf path key))"
      using Objects.prems [of "fieldPathOf path key"] by (auto simp: ignores_def)
    from Some show ?thesis
    proof (cases rule: objEntry_cases)
      case Added
      then show ?thesis using ni by (auto simp: Some objEntry_def [of d] Let_def)
    next
      case Removed
      then show ?thesis using ni by (auto simp: Some objEntry_def [of d] Let_def)
    next
      case Both
      then have h: "mapHas obj1 key" "mapHas obj2 key"
        using k by (auto simp: mapHas_def map_of_eq_None_iff image_Un)
      let ?c = "compareValues d (mapGet obj1 key Null) (mapGet obj2 key Null) (fieldPathOf path key)"
      have le: "leafCount c' \<le> leafCount ?c"
        using Objects.IH [OF k ni' h Objects.prems] Both by simp
      show ?thesis
      proof (cases "Type ?c = DiffTypeEqual")
        case True
        then have "leafCount ?c = 0" by (rule leafCount_Equal)
        then show ?thesis using le Some by simp
      next
        case False
        then have "objEntry d obj1 obj2 path key = Some ?c"
          using ni h by (simp add: objEntry_def Let_def)
        then show ?thesis using le Some by simp
      qed
    qed
  qed
  then show ?case
    unfolding leafCount_compareObjects by (rule sum_list_mono)
next
  case (Values d' val1 val2 path)
  show ?case
    using Values
    by (auto simp: compareValues_unfold [of d val1 val2] compareValues_unfold [of d' val1 val2])
next
  case (Arrays d' arr1 arr2 path)
  have "(case arrEntry d' arr1 arr2 path i of None \<Rightarrow> 0 | Some c \<Rightarrow> leafCount c)
      \<le> (case arrEntry d arr1 arr2 path i of None \<Rightarrow> 0 | Some c \<Rightarrow> leafCount c)"
    if "i \<in> set [0..<max (length arr1) (length arr2)]" for i
  proof (cases "i < length arr1 \<and> i < length arr2")
    case False
    then show ?thesis by (auto simp: arrEntry_def Let_def)
  next
    case True
    let ?c = "compareValues d (arr1 ! i) (arr2 ! i) (path @ indexKey i)"
    let ?c' = "compareValues d' (arr1 ! i) (arr2 ! i) (path @ indexKey i)"
    have le: "leafCount ?c' \<le> leafCount ?c"
      using Arrays.IH [of i] True Arrays.prems by simp
    show ?thesis
    proof (cases "Type ?c = DiffTypeEqual")
      case eq: True
      then have "leafCount ?c = 0" by (rule leafCount_Equal)
      then show ?thesis using le True by (simp add: arrEntry_def Let_def)
    next
      case False
      then show ?thesis using le True by (simp add: arrEntry_def Let_def)
    qed
  qed
  then show ?case
    unfolding leafCount_compareArrays by (rule sum_list_mono)
qed

lemma entries_cong:
  "(\<And>k. k \<in> set keys \<Longrightarrow> f k = g k) \<Longrightarrow> entries kf f keys = entries kf g keys"
proof (induction keys)
  case Nil
  show ?case by simp
next
  case (Cons a keys)
  have "f a = g a" using Cons.prems by simp
  moreover have "entries kf f keys = entries kf g keys" using Cons by simp
  ultimately show ?case by (cases "g a") simp_all
qed

text \<open>
  The result depends on the Differ only through the set of paths it ignores.
\<close>

lemma compare_ignores_cong:
  fixes d d' :: Differ
  assumes same: "\<And>fp. ignores d' fp = ignores d fp"
  shows "compareObjects d' obj1 obj2 path = compareObjects d obj1 obj2 path"
    and "compareValues d' val1 val2 path = compareValues d val1 val2 path"
    and "compareArrays d' arr1 arr2 path = compareArrays d arr1 arr2 path"
  using same
proof (induction d' obj1 obj2 path and d' val1 val2 path and d' arr1 arr2 path
    rule: compare_induct)
  case (Objects d' obj1 obj2 path)
  have "objEntry d' obj1 obj2 path key = objEntry d obj1 obj2 path key"
    if "key \<in> set (sort (mapKeys (obj1 @ obj2)))" for key
  proof -
    have k: "key \<in> fst ` set (obj1 @ obj2)" using that by (simp add: set_mapKeys)
    have ig: "(\<not> showAll d' \<and> ShouldIgnore (config d') (fieldPathOf path key))
        = (\<not> showAll d \<and> ShouldIgnore (config d) (fieldPathOf path key))"
      using Objects.prems [of "fieldPathOf path key"] by (simp add: ignores_def)
    show ?thesis
    proof (cases "\<not> showAll d' \<and> ShouldIgnore (config d') (fieldPathOf path key)")
      case True
      then show ?thesis using ig by (simp add: objEntry_def)
    next
      case ni: False
      show ?thesis
      proof (cases "mapHas obj1 key \<and> mapHas obj2 key")
        case True
        then show ?thesis
          using Objects.IH [OF k ni _ _ Objects.prems] ni ig by (auto simp: objEntry_def Let_def)
      next
        case False
        moreover have "mapHas obj1 key \<or> mapHas obj2 key"
          using k by (auto simp: mapHas_def map_of_eq_None_iff)
        ultimately show ?thesis using ni ig by (auto simp: objEntry_def Let_def)
      qed
    qed
  qed
  then have "entries (\<lambda>k. k) (objEntry d' obj1 obj2 path) (sort (mapKeys (obj1 @ obj2)))
      = entries (\<lambda>k. k) (objEntry d obj1 obj2 path) (sort (mapKeys (obj1 @ obj2)))"
    by (rule entries_cong)
  then show ?case by (simp add: compareObjects_unfold)
next
  case (Values d' val1 val2 path)
  show ?case
    using Values
    by (auto simp: compareValues_unfold [of d val1 val2] compareValues_unfold [of d' val1 val2])
next
  case (Arrays d' arr1 arr2 path)
  have "arrEntry d' arr1 arr2 path i = arrEntry d arr1 arr2 path i"
    if "i \<in> set [0..<max (length arr1) (length arr2)]" for i
    using Arrays.IH [of i] Arrays.prems by (simp add: arrEntry_def Let_def)
  then have "entries indexKey (arrEntry d' arr1 arr2 path) [0..<max (length arr1) (length arr2)]
      = entries indexKey (arrEntry d arr1 arr2 path) [0..<max (length arr1) (length arr2)]"
    by (rule entries_cong)
  then show ?case by (simp add: compareArrays_unfold)
qed

lemma sorted_keys_eq: "sorted_list_of_set (fst ` set ch) = sort (mapKeys ch)"
proof -
  have "sorted_list_of_set (set (map fst ch)) = sort (remdups (map fst ch))"
    by (rule sorted_list_of_set_sort_remdups)
  then show ?thesis by (simp add: mapKeys_def)
qed

text \<open>
  \<^const>\<open>GetAllDiffs\<close> returns the changed leaves of the pre-order traversal, in that order.
\<close>

lemma GetAllDiffs_preorder: "GetAllDiffs t = filter isChangedLeaf (preorder t)"
proof (induction t rule: GetAllDiffs.induct)
  case (1 diff)
  let ?keys = "sort (mapKeys (Children diff))"
  have "map (\<lambda>key. case map_of (Children diff) key of Some child \<Rightarrow> GetAllDiffs child | None \<Rightarrow> []) ?keys
      = map (\<lambda>key. filter isChangedLeaf
            (case map_of (Children diff) key of Some child \<Rightarrow> preorder child | None \<Rightarrow> [])) ?keys"
  proof (rule map_cong [OF refl])
    fix key assume key: "key \<in> set ?keys"
    show "(case map_of (Children diff) key of Some child \<Rightarrow> GetAllDiffs child | None \<Rightarrow> [])
      = filter isChangedLeaf
          (case map_of (Children diff) key of Some child \<Rightarrow> preorder child | None \<Rightarrow> [])"
      using "1.IH" [OF key] by (cases "map_of (Children diff) key") simp_all
  qed
  then have "GetAllDiffs diff =
      (if Type diff \<noteq> DiffTypeEqual \<and> length (Children diff) = 0 then [diff] else []) @
      concat (map (\<lambda>key. filter isChangedLeaf
            (case map_of (Children diff) key of Some child \<Rightarrow> preorder child | None \<Rightarrow> [])) ?keys)"
    by (subst GetAllDiffs.simps) (simp only:)
  also have "\<dots> = filter isChangedLeaf (preorder diff)"
    by (subst preorder.simps)
      (simp add: filter_concat comp_def sorted_keys_eq isChangedLeaf_def)
  finally show ?case .
qed














section \<open>The claims\<close>

subsection \<open>C1: the order of the flattened differences\<close>

text \<open>
  Claim C1, as amended. For every Diff tree, \<^const>\<open>GetAllDiffs\<close> visits the tree depth-first
  in pre-order, emits only the leaf nodes whose kind is not Equal, and visits the children
  of each node in the bytewise lexicographic order of their keys. Array index tokens are
  ordered as strings like every other key: the token of index 10 comes before the token of
  index 2.
\<close>

theorem GetAllDiffs_changed_leaves_in_key_order:
  "GetAllDiffs t = filter isChangedLeaf (preorder t)
   \<and> sorted_list_of_set {indexKey 2, indexKey 10} = [indexKey 10, indexKey 2]"
proof
  show "GetAllDiffs t = filter isChangedLeaf (preorder t)"
    by (rule GetAllDiffs_preorder)
  have "indexKey 10 = ''[10]''" "indexKey 2 = ''[2]''"
    by code_simp+
  then show "sorted_list_of_set {indexKey 2, indexKey 10} = [indexKey 10, indexKey 2]"
    by (simp add: less_eq_char_def less_char_def)
qed

text \<open>
  An instance: the traversal of a tree with a nested object, and the leaves reported.
\<close>

theorem GetAllDiffs_changed_leaves_in_key_order_witness:
  "map Path (preorder (Compare (NewDiffer None False)
      [(''b'', Object [(''y'', Number 1), (''x'', Number 1)]), (''a'', Number 1), (''c'', Number 3)]
      [(''b'', Object [(''y'', Number 2), (''x'', Number 2)]), (''a'', Number 2), (''c'', Number 3)]))
     = ['''', ''a'', ''b'', ''b.x'', ''b.y'']
   \<and> map Path (GetAllDiffs (Compare (NewDiffer None False)
      [(''b'', Object [(''y'', Number 1), (''x'', Number 1)]), (''a'', Number 1), (''c'', Number 3)]
      [(''b'', Object [(''y'', Number 2), (''x'', Number 2)]), (''a'', Number 2), (''c'', Number 3)]))
     = [''a'', ''b.x'', ''b.y'']"
proof -
  let ?t = "Compare (NewDiffer None False)
      [(''b'', Object [(''y'', Number 1), (''x'', Number 1)]), (''a'', Number 1), (''c'', Number 3)]
      [(''b'', Object [(''y'', Number 2), (''x'', Number 2)]), (''a'', Number 2), (''c'', Number 3)]"
  have pre: "preorder ?t =
     [Diff '''' DiffTypeModified Null Null
        [(''a'', Diff ''a'' DiffTypeModified (Number 1) (Number 2) []),
         (''b'', Diff ''b'' DiffTypeModified Null Null
            [(''x'', Diff ''b.x'' DiffTypeModified (Number 1) (Number 2) []),
             (''y'', Diff ''b.y'' DiffTypeModified (Number 1) (Number 2) [])])],
      Diff ''a'' DiffTypeModified (Number 1) (Number 2) [],
      Diff ''b'' DiffTypeModified Null Null
            [(''x'', Diff ''b.x'' DiffTypeModified (Number 1) (Number 2) []),
             (''y'', Diff ''b.y'' DiffTypeModified (Number 1) (Number 2) [])],
      Diff ''b.x'' DiffTypeModified (Number 1) (Number 2) [],
      Diff ''b.y'' DiffTypeModified (Number 1) (Number 2) []]"
    by code_simp
  have "GetAllDiffs ?t = filter isChangedLeaf (preorder ?t)"
    using GetAllDiffs_changed_leaves_in_key_order [of ?t] by simp
  then show ?thesis
    unfolding pre by (simp add: isChangedLeaf_def)
qed

text \<open>
  Index tokens are not sorted numerically: for an array of eleven removed elements the
  difference at index 10 is reported second, before the one at index 1.
\<close>

theorem GetAllDiffs_index_tokens_counterexample:
  "map Path (GetAllDiffs (Compare (NewDiffer None False)
      [(''a'', Array [Number 0, Number 1, Number 2, Number 3, Number 4, Number 5, Number 6,
                      Number 7, Number 8, Number 9, Number 10])]
      [(''a'', Array [])]))
   = [''a[0]'', ''a[10]'', ''a[1]'', ''a[2]'', ''a[3]'', ''a[4]'', ''a[5]'', ''a[6]'', ''a[7]'',
      ''a[8]'', ''a[9]'']"
  by code_simp

subsection \<open>C2: reflexivity\<close>

text \<open>
  Claim C2. For every document \<open>x\<close> and every Differ (any rule set, any \<open>showAll\<close>),
  \<open>Compare x x\<close> is of kind Equal; it has no children either.
\<close>

theorem Compare_reflexive:
  "Type (Compare d x x) = DiffTypeEqual \<and> Children (Compare d x x) = []"
  using compare_refl(1) [of x x d "''''"] by (simp add: Compare_def)

theorem Compare_reflexive_witness:
  "Compare (NewDiffer (Some Default) True)
      [(''id'', String ''1''), (''tags'', Array [Null, Bool True, Number 3]),
       (''meta'', Object [(''k'', String ''v'')])]
      [(''id'', String ''1''), (''tags'', Array [Null, Bool True, Number 3]),
       (''meta'', Object [(''k'', String ''v'')])]
    = Diff '''' DiffTypeEqual Null Null []
   \<and> Type (Compare (NewDiffer (Some Default) True)
      [(''id'', String ''1''), (''tags'', Array [Null, Bool True, Number 3]),
       (''meta'', Object [(''k'', String ''v'')])]
      [(''id'', String ''1''), (''tags'', Array [Null, Bool True, Number 3]),
       (''meta'', Object [(''k'', String ''v'')])]) = DiffTypeEqual"
proof
  show "Compare (NewDiffer (Some Default) True)
      [(''id'', String ''1''), (''tags'', Array [Null, Bool True, Number 3]),
       (''meta'', Object [(''k'', String ''v'')])]
      [(''id'', String ''1''), (''tags'', Array [Null, Bool True, Number 3]),
       (''meta'', Object [(''k'', String ''v'')])]
    = Diff '''' DiffTypeEqual Null Null []"
    by code_simp
  show "Type (Compare (NewDiffer (Some Default) True)
      [(''id'', String ''1''), (''tags'', Array [Null, Bool True, Number 3]),
       (''meta'', Object [(''k'', String ''v'')])]
      [(''id'', String ''1''), (''tags'', Array [Null, Bool True, Number 3]),
       (''meta'', Object [(''k'', String ''v'')])]) = DiffTypeEqual"
    using Compare_reflexive by simp
qed

subsection \<open>C3: anti-symmetry\<close>

text \<open>
  Claim C3. For the same Differ, \<open>Compare b a\<close> is the mirror image of \<open>Compare a b\<close>: the
  two trees have the same nodes at the same paths, a node that is Added in one is Removed
  in the other and conversely, Modified and Equal nodes keep their kind, and at every node
  the before and after payloads are exchanged.
\<close>

theorem Compare_antisymmetric:
  "Compare d b a = mirror (Compare d a b)
   \<and> map Path (allNodes (Compare d b a)) = map Path (allNodes (Compare d a b))
   \<and> map Type (allNodes (Compare d b a)) = map swapType (map Type (allNodes (Compare d a b)))
   \<and> map Value1 (allNodes (Compare d b a)) = map Value2 (allNodes (Compare d a b))
   \<and> map Value2 (allNodes (Compare d b a)) = map Value1 (allNodes (Compare d a b))"
proof -
  have m: "Compare d b a = mirror (Compare d a b)"
    using compare_mirror(1) [of d b a "''''"] by (simp add: Compare_def)
  have v: "Value1 (mirror t) = Value2 t" "Value2 (mirror t) = Value1 t" for t
    by (cases t, simp)+
  show ?thesis
    by (simp add: m allNodes_mirror comp_def v)
qed

theorem Compare_antisymmetric_witness:
  "allNodes (Compare (NewDiffer None False)
      [(''a'', Number 1), (''b'', String ''x''), (''l'', Array [Bool True, Bool False])]
      [(''a'', Number 2), (''c'', String ''y''), (''l'', Array [Bool True])])
    = [Diff '''' DiffTypeModified Null Null
         [(''a'', Diff ''a'' DiffTypeModified (Number 1) (Number 2) []),
          (''b'', Diff ''b'' DiffTypeRemoved (String ''x'') Null []),
          (''c'', Diff ''c'' DiffTypeAdded Null (String ''y'') []),
          (''l'', Diff ''l'' DiffTypeModified Null Null
             [(''[1]'', Diff ''l[1]'' DiffTypeRemoved (Bool False) Null [])])],
       Diff ''a'' DiffTypeModified (Number 1) (Number 2) [],
       Diff ''b'' DiffTypeRemoved (String ''x'') Null [],
       Diff ''c'' DiffTypeAdded Null (String ''y'') [],
       Diff ''l'' DiffTypeModified Null Null
             [(''[1]'', Diff ''l[1]'' DiffTypeRemoved (Bool False) Null [])],
       Diff ''l[1]'' DiffTypeRemoved (Bool False) Null []]
   \<and> allNodes (Compare (NewDiffer None False)
      [(''a'', Number 2), (''c'', String ''y''), (''l'', Array [Bool True])]
      [(''a'', Number 1), (''b'', String ''x''), (''l'', Array [Bool True, Bool False])])
    = [Diff '''' DiffTypeModified Null Null
         [(''a'', Diff ''a'' DiffTypeModified (Number 2) (Number 1) []),
          (''b'', Diff ''b'' DiffTypeAdded Null (String ''x'') []),
          (''c'', Diff ''c'' DiffTypeRemoved (String ''y'') Null []),
          (''l'', Diff ''l'' DiffTypeModified Null Null
             [(''[1]'', Diff ''l[1]'' DiffTypeAdded Null (Bool False) [])])],
       Diff ''a'' DiffTypeModified (Number 2) (Number 1) [],
       Diff ''b'' DiffTypeAdded Null (String ''x'') [],
       Diff ''c'' DiffTypeRemoved (String ''y'') Null [],
       Diff ''l'' DiffTypeModified Null Null
             [(''[1]'', Diff ''l[1]'' DiffTypeAdded Null (Bool False) [])],
       Diff ''l[1]'' DiffTypeAdded Null (Bool False) []]"
proof -
  let ?d = "NewDiffer None False"
  let ?a = "[(''a'', Number 1), (''b'', String ''x''), (''l'', Array [Bool True, Bool False])]"
  let ?b = "[(''a'', Number 2), (''c'', String ''y''), (''l'', Array [Bool True])]"
  have ab: "Compare ?d ?a ?b = Diff '''' DiffTypeModified Null Null
         [(''a'', Diff ''a'' DiffTypeModified (Number 1) (Number 2) []),
          (''b'', Diff ''b'' DiffTypeRemoved (String ''x'') Null []),
          (''c'', Diff ''c'' DiffTypeAdded Null (String ''y'') []),
          (''l'', Diff ''l'' DiffTypeModified Null Null
             [(''[1]'', Diff ''l[1]'' DiffTypeRemoved (Bool False) Null [])])]"
    by code_simp
  have ba: "Compare ?d ?b ?a = mirror (Compare ?d ?a ?b)"
    using Compare_antisymmetric [where d = "?d" and a = "?a" and b = "?b"] by simp
  show ?thesis
    unfolding ba unfolding ab by simp
qed

subsection \<open>C4: ignoring is monotone\<close>

text \<open>
  Claim C4. With \<open>showAll = False\<close>, adding a path \<open>p\<close> to the ignore fields of the
  configuration never increases the number of differences that \<^const>\<open>GetAllDiffs\<close> returns
  for \<open>Compare a b\<close>. With \<open>showAll = True\<close> the result is the one obtained with no ignore
  field at all, whatever the configuration.
\<close>

theorem ignoring_is_monotone:
  "length (GetAllDiffs (Compare (NewDiffer (Some (c\<lparr>IgnoreFields := IgnoreFields c @ [p]\<rparr>)) False) a b))
     \<le> length (GetAllDiffs (Compare (NewDiffer (Some c) False) a b))
   \<and> Compare (NewDiffer (Some c) True) a b
       = Compare (NewDiffer (Some (c\<lparr>IgnoreFields := []\<rparr>)) False) a b"
proof
  let ?d = "NewDiffer (Some c) False"
  let ?d' = "NewDiffer (Some (c\<lparr>IgnoreFields := IgnoreFields c @ [p]\<rparr>)) False"
  have "ignores ?d fp \<Longrightarrow> ignores ?d' fp" for fp
    by (simp add: ignores_def NewDiffer_def ShouldIgnore_def ShouldIgnore_loop_iff)
  from compare_leafCount_mono(1) [of ?d ?d', OF this]
  show "length (GetAllDiffs (Compare ?d' a b)) \<le> length (GetAllDiffs (Compare ?d a b))"
    by (simp add: Compare_def leafCount_def)
next
  let ?d = "NewDiffer (Some (c\<lparr>IgnoreFields := []\<rparr>)) False"
  let ?d' = "NewDiffer (Some c) True"
  have "ignores ?d' fp = ignores ?d fp" for fp
    by (simp add: ignores_def NewDiffer_def ShouldIgnore_def)
  from compare_ignores_cong(1) [of ?d' ?d, OF this]
  show "Compare ?d' a b = Compare ?d a b"
    by (simp add: Compare_def)
qed

theorem ignoring_is_monotone_witness:
  "length (GetAllDiffs (Compare (NewDiffer (Some Default) False)
      [(''id'', String ''1''), (''name'', String ''a''), (''zone'', String ''z1'')]
      [(''id'', String ''2''), (''name'', String ''b''), (''zone'', String ''z1'')])) = 1
   \<and> length (GetAllDiffs (Compare
        (NewDiffer (Some (Default\<lparr>IgnoreFields := IgnoreFields Default @ [''name'']\<rparr>)) False)
      [(''id'', String ''1''), (''name'', String ''a''), (''zone'', String ''z1'')]
      [(''id'', String ''2''), (''name'', String ''b''), (''zone'', String ''z1'')])) \<le> 1
   \<and> map Path (GetAllDiffs (Compare (NewDiffer (Some Default) True)
      [(''id'', String ''1''), (''name'', String ''a''), (''zone'', String ''z1'')]
      [(''id'', String ''2''), (''name'', String ''b''), (''zone'', String ''z1'')]))
      = [''id'', ''name'']"
proof -
  let ?a = "[(''id'', String ''1''), (''name'', String ''a''), (''zone'', String ''z1'')]"
  let ?b = "[(''id'', String ''2''), (''name'', String ''b''), (''zone'', String ''z1'')]"
  have one: "length (GetAllDiffs (Compare (NewDiffer (Some Default) False) ?a ?b)) = 1"
    by code_simp
  have full: "map Path (GetAllDiffs (Compare
      (NewDiffer (Some (Default\<lparr>IgnoreFields := []\<rparr>)) False) ?a ?b)) = [''id'', ''name'']"
    by code_simp
  show ?thesis
    using ignoring_is_monotone [of Default "''name''" ?a ?b] one full by simp
qed

subsection \<open>C5: payloads by kind\<close>




subsection \<open>C6: null on one side\<close>

text \<open>
  Claim C6. For a key present in both operands and not ignored, where exactly one of the
  two values is null: null on the left gives the child Added with the right value as
  \<open>Value2\<close>, null on the right gives the child Removed with the left value as \<open>Value1\<close>;
  in neither case is the child Modified. This holds at every depth (for every \<open>path\<close>).
  The instance below is the comparison of \<open>{x: null}\<close> with \<open>{x: 5}\<close> in both directions.
\<close>

theorem null_is_absent:
  fixes d :: Differ
  assumes v: "v \<noteq> Null"
    and ni: "showAll d \<or> \<not> ShouldIgnore (config d) (fieldPathOf path key)"
  shows "(map_of obj1 key = Some Null \<and> map_of obj2 key = Some v \<longrightarrow>
           map_of (Children (compareObjects d obj1 obj2 path)) key =
             Some (Diff (fieldPathOf path key) DiffTypeAdded Null v [])) \<and>
         (map_of obj1 key = Some v \<and> map_of obj2 key = Some Null \<longrightarrow>
           map_of (Children (compareObjects d obj1 obj2 path)) key =
             Some (Diff (fieldPathOf path key) DiffTypeRemoved v Null [])) \<and>
         compareValues d Null v path = Diff path DiffTypeAdded Null v [] \<and>
         compareValues d v Null path = Diff path DiffTypeRemoved v Null []"
proof (intro conjI impI)
  show "compareValues d Null v path = Diff path DiffTypeAdded Null v []"
    using v by (simp add: compareValues_unfold)
  show "compareValues d v Null path = Diff path DiffTypeRemoved v Null []"
    using v by (simp add: compareValues_unfold)
next
  assume b: "map_of obj1 key = Some Null \<and> map_of obj2 key = Some v"
  have "compareValues d Null v (fieldPathOf path key) =
      Diff (fieldPathOf path key) DiffTypeAdded Null v []"
    using v by (simp add: compareValues_unfold)
  then show "map_of (Children (compareObjects d obj1 obj2 path)) key =
             Some (Diff (fieldPathOf path key) DiffTypeAdded Null v [])"
    using ni b by (auto simp: Children_compareObjects objEntry_def mapHas_def mapGet_def)
next
  assume b: "map_of obj1 key = Some v \<and> map_of obj2 key = Some Null"
  have "compareValues d v Null (fieldPathOf path key) =
      Diff (fieldPathOf path key) DiffTypeRemoved v Null []"
    using v by (simp add: compareValues_unfold)
  then show "map_of (Children (compareObjects d obj1 obj2 path)) key =
             Some (Diff (fieldPathOf path key) DiffTypeRemoved v Null [])"
    using ni b by (auto simp: Children_compareObjects objEntry_def mapHas_def mapGet_def)
qed

theorem null_is_absent_witness:
  "Number 5 \<noteq> Null
   \<and> \<not> ShouldIgnore (config (NewDiffer None False)) (fieldPathOf '''' ''x'')
   \<and> map_of (Children (Compare (NewDiffer None False) [(''x'', Null)] [(''x'', Number 5)])) ''x''
       = Some (Diff ''x'' DiffTypeAdded Null (Number 5) [])
   \<and> map_of (Children (Compare (NewDiffer None False) [(''x'', Number 5)] [(''x'', Null)])) ''x''
       = Some (Diff ''x'' DiffTypeRemoved (Number 5) Null [])"
proof -
  have ni: "\<not> ShouldIgnore (config (NewDiffer None False)) (fieldPathOf '''' ''x'')"
    by code_simp
  have fp: "fieldPathOf '''' ''x'' = ''x''"
    by code_simp
  have v: "Number 5 \<noteq> Null" by simp
  show ?thesis
    using ni
      null_is_absent [OF v disjI2 [OF ni], of "[(''x'', Null)]" "[(''x'', Number 5)]"]
      null_is_absent [OF v disjI2 [OF ni], of "[(''x'', Number 5)]" "[(''x'', Null)]"]
    by (simp add: fp Compare_def)
qed

subsection \<open>C7: arrays are compared by position\<close>

text \<open>
  Claim C7. The children of an array node are determined index by index, for the indices
  below the larger of the two lengths: an index present in both arrays holds the
  comparison of the two elements at that index when it is not Equal and nothing otherwise;
  an index present only in the second array holds an Added node, one present only in the
  first a Removed node; there are no other children. The instance below is the comparison
  of \<open>{a: [1,2,3]}\<close> with \<open>{a: [0,1,2,3]}\<close>: Modified at indices 0, 1, 2 and Added at 3.
\<close>

theorem arrays_compared_by_position:
  fixes d :: Differ
  shows "map_of (Children (compareArrays d arr1 arr2 path)) (indexKey i) =
     (if i < length arr1 \<and> i < length arr2 then
        (if Type (compareValues d (arr1 ! i) (arr2 ! i) (path @ indexKey i)) \<noteq> DiffTypeEqual
         then Some (compareValues d (arr1 ! i) (arr2 ! i) (path @ indexKey i)) else None)
      else if i < length arr2 then Some (Diff (path @ indexKey i) DiffTypeAdded Null (arr2 ! i) [])
      else if i < length arr1 then Some (Diff (path @ indexKey i) DiffTypeRemoved (arr1 ! i) Null [])
      else None)
    \<and> fst ` set (Children (compareArrays d arr1 arr2 path))
        \<subseteq> indexKey ` {0..<max (length arr1) (length arr2)}"
proof
  show "map_of (Children (compareArrays d arr1 arr2 path)) (indexKey i) =
     (if i < length arr1 \<and> i < length arr2 then
        (if Type (compareValues d (arr1 ! i) (arr2 ! i) (path @ indexKey i)) \<noteq> DiffTypeEqual
         then Some (compareValues d (arr1 ! i) (arr2 ! i) (path @ indexKey i)) else None)
      else if i < length arr2 then Some (Diff (path @ indexKey i) DiffTypeAdded Null (arr2 ! i) [])
      else if i < length arr1 then Some (Diff (path @ indexKey i) DiffTypeRemoved (arr1 ! i) Null [])
      else None)"
    by (simp add: Children_compareArrays arrEntry_def Let_def)
  show "fst ` set (Children (compareArrays d arr1 arr2 path))
        \<subseteq> indexKey ` {0..<max (length arr1) (length arr2)}"
    by (auto simp: compareArrays_unfold set_entries)
qed

theorem arrays_compared_by_position_witness:
  "Compare (NewDiffer None False) [(''a'', Array [Number 1, Number 2, Number 3])]
       [(''a'', Array [Number 0, Number 1, Number 2, Number 3])] =
     Diff '''' DiffTypeModified Null Null
       [(''a'', compareArrays (NewDiffer None False) [Number 1, Number 2, Number 3]
                  [Number 0, Number 1, Number 2, Number 3] ''a'')]
   \<and> map (\<lambda>i. map_of (Children (compareArrays (NewDiffer None False) [Number 1, Number 2, Number 3]
                  [Number 0, Number 1, Number 2, Number 3] ''a'')) (indexKey i)) [0, 1, 2, 3, 4] =
     [Some (Diff ''a[0]'' DiffTypeModified (Number 1) (Number 0) []),
      Some (Diff ''a[1]'' DiffTypeModified (Number 2) (Number 1) []),
      Some (Diff ''a[2]'' DiffTypeModified (Number 3) (Number 2) []),
      Some (Diff ''a[3]'' DiffTypeAdded Null (Number 3) []),
      None]"
proof -
  let ?d = "NewDiffer None False"
  let ?a1 = "[Number 1, Number 2, Number 3]"
  let ?a2 = "[Number 0, Number 1, Number 2, Number 3]"
  have top: "Compare ?d [(''a'', Array ?a1)] [(''a'', Array ?a2)] =
     Diff '''' DiffTypeModified Null Null [(''a'', compareArrays ?d ?a1 ?a2 ''a'')]"
    by code_simp
  have el: "compareValues ?d (Number 1) (Number 0) ''a[0]'' = Diff ''a[0]'' DiffTypeModified (Number 1) (Number 0) []"
    "compareValues ?d (Number 2) (Number 1) ''a[1]'' = Diff ''a[1]'' DiffTypeModified (Number 2) (Number 1) []"
    "compareValues ?d (Number 3) (Number 2) ''a[2]'' = Diff ''a[2]'' DiffTypeModified (Number 3) (Number 2) []"
    by code_simp+
  have keys: "indexKey 0 = ''[0]''" "indexKey 1 = ''[1]''" "indexKey 2 = ''[2]''"
      "indexKey 3 = ''[3]''" "indexKey 4 = ''[4]''"
    by code_simp+
  have key1: "indexKey (Suc 0) = ''[1]''"
    using keys(2) by simp
  show ?thesis
    using top
      arrays_compared_by_position [of ?d ?a1 ?a2 "''a''" 0]
      arrays_compared_by_position [of ?d ?a1 ?a2 "''a''" 1]
      arrays_compared_by_position [of ?d ?a1 ?a2 "''a''" 2]
      arrays_compared_by_position [of ?d ?a1 ?a2 "''a''" 3]
      arrays_compared_by_position [of ?d ?a1 ?a2 "''a''" 4]
    by (simp add: keys key1 el)
qed

subsection \<open>C8: only exact matches are ignored\<close>

text \<open>
  Claim C8. \<^const>\<open>ShouldIgnore\<close> is true exactly for the paths that occur in
  \<open>IgnoreFields\<close>, and its result does not depend on \<open>IgnorePatterns\<close>. In the instance
  below, \<open>updateTimestamp\<close> matches the default pattern \<open>.*Timestamp$\<close> and is not ignored.
\<close>

theorem ShouldIgnore_exact_match_only:
  "(ShouldIgnore c p \<longleftrightarrow> p \<in> set (IgnoreFields c)) \<and>
   ShouldIgnore (c\<lparr>IgnorePatterns := ps\<rparr>) p = ShouldIgnore c p"
  by (simp add: ShouldIgnore_def ShouldIgnore_loop_iff)

theorem ShouldIgnore_exact_match_only_witness:
  "ShouldIgnore Default ''creationTimestamp'' \<and> \<not> ShouldIgnore Default ''updateTimestamp''
   \<and> \<not> ShouldIgnore Default ''metadata.creationTimestamp''
   \<and> ShouldIgnore (Default\<lparr>IgnorePatterns := []\<rparr>) ''updateTimestamp'' = ShouldIgnore Default ''updateTimestamp''"
  using ShouldIgnore_exact_match_only [of Default "''creationTimestamp''" "[]"]
    ShouldIgnore_exact_match_only [of Default "''updateTimestamp''" "[]"]
    ShouldIgnore_exact_match_only [of Default "''metadata.creationTimestamp''" "[]"]
  by (simp add: Default_def)

subsection \<open>C9: rendering twice\<close>

text \<open>
  Claim C9 says that rendering the same tree twice gives the same text, without hidden
  state and without changing the tree. The hierarchical renderer does not meet it on the
  tree below, the comparison of \<open>{a: {x: 1}, a.b: 1}\<close> with \<open>{a: {x: 2}, a.b: 2}\<close>, whose
  two root keys have the same top-level field \<open>a\<close>. What \<^const>\<open>getTopLevelDiffs\<close> hands
  to the printer under the field \<open>a\<close> depends on which key the map enumeration yields
  first: the node of \<open>a\<close> with \<open>a.b\<close> added below it, or the node of \<open>a.b\<close> with \<open>a\<close>
  added below it. In both cases the tree passed in has been changed.
\<close>

theorem getTopLevelDiffs_depends_on_map_order:
  "(let tree = Compare (NewDiffer None False)
       [(''a'', Object [(''x'', Number 1)]), (''a.b'', Number 1)]
       [(''a'', Object [(''x'', Number 2)]), (''a.b'', Number 2)]
    in tree =
         Diff '''' DiffTypeModified Null Null
           [(''a'', Diff ''a'' DiffTypeModified Null Null
               [(''x'', Diff ''a.x'' DiffTypeModified (Number 1) (Number 2) [])]),
            (''a.b'', Diff ''a.b'' DiffTypeModified (Number 1) (Number 2) [])]
     \<and> getTopLevelDiffs [''a'', ''a.b''] tree =
         ([(''a'', Diff ''a'' DiffTypeModified Null Null
              [(''x'', Diff ''a.x'' DiffTypeModified (Number 1) (Number 2) []),
               (''a.b'', Diff ''a.b'' DiffTypeModified (Number 1) (Number 2) [])])],
          Diff '''' DiffTypeModified Null Null
            [(''a'', Diff ''a'' DiffTypeModified Null Null
                [(''x'', Diff ''a.x'' DiffTypeModified (Number 1) (Number 2) []),
                 (''a.b'', Diff ''a.b'' DiffTypeModified (Number 1) (Number 2) [])]),
             (''a.b'', Diff ''a.b'' DiffTypeModified (Number 1) (Number 2) [])])
     \<and> getTopLevelDiffs [''a.b'', ''a''] tree =
         ([(''a'', Diff ''a.b'' DiffTypeModified (Number 1) (Number 2)
              [(''a'', Diff ''a'' DiffTypeModified Null Null
                  [(''x'', Diff ''a.x'' DiffTypeModified (Number 1) (Number 2) [])])])],
          Diff '''' DiffTypeModified Null Null
            [(''a'', Diff ''a'' DiffTypeModified Null Null
                [(''x'', Diff ''a.x'' DiffTypeModified (Number 1) (Number 2) [])]),
             (''a.b'', Diff ''a.b'' DiffTypeModified (Number 1) (Number 2)
                [(''a'', Diff ''a'' DiffTypeModified Null Null
                    [(''x'', Diff ''a.x'' DiffTypeModified (Number 1) (Number 2) [])])])])
     \<and> fst (getTopLevelDiffs [''a'', ''a.b''] tree) \<noteq> fst (getTopLevelDiffs [''a.b'', ''a''] tree)
     \<and> snd (getTopLevelDiffs [''a'', ''a.b''] tree) \<noteq> tree
     \<and> snd (getTopLevelDiffs [''a.b'', ''a''] tree) \<noteq> tree)"
  by code_simp

subsection \<open>C10: no Equal child is stored\<close>

text \<open>
  Claim C10. In every Diff tree returned by \<^const>\<open>Compare\<close>, no entry of the children of any
  node has kind Equal, and a node of kind Equal has no children.
\<close>

theorem Compare_children_never_Equal:
  "\<forall>n\<in>set (allNodes (Compare d obj1 obj2)).
      (\<forall>kc\<in>set (Children n). Type (snd kc) \<noteq> DiffTypeEqual) \<and>
      (Type n = DiffTypeEqual \<longrightarrow> Children n = [])"
  unfolding Compare_def
  by (rule allNodes_invariant(1)) simp_all

theorem Compare_children_never_Equal_witness:
  "allNodes (Compare (NewDiffer None False)
       [(''name'', String ''a''), (''zone'', String ''z1''), (''tags'', Array [String ''t'', String ''u''])]
       [(''name'', String ''b''), (''zone'', String ''z1''), (''tags'', Array [String ''t'', String ''v''])])
     = [Diff '''' DiffTypeModified Null Null
          [(''name'', Diff ''name'' DiffTypeModified (String ''a'') (String ''b'') []),
           (''tags'', Diff ''tags'' DiffTypeModified Null Null
              [(''[1]'', Diff ''tags[1]'' DiffTypeModified (String ''u'') (String ''v'') [])])],
        Diff ''name'' DiffTypeModified (String ''a'') (String ''b'') [],
        Diff ''tags'' DiffTypeModified Null Null
              [(''[1]'', Diff ''tags[1]'' DiffTypeModified (String ''u'') (String ''v'') [])],
        Diff ''tags[1]'' DiffTypeModified (String ''u'') (String ''v'') []]
   \<and> list_all (\<lambda>n. list_all (\<lambda>kc. Type (snd kc) \<noteq> DiffTypeEqual) (Children n))
       (allNodes (Compare (NewDiffer None False)
       [(''name'', String ''a''), (''zone'', String ''z1''), (''tags'', Array [String ''t'', String ''u''])]
       [(''name'', String ''b''), (''zone'', String ''z1''), (''tags'', Array [String ''t'', String ''v''])]))"
proof
  show "allNodes (Compare (NewDiffer None False)
       [(''name'', String ''a''), (''zone'', String ''z1''), (''tags'', Array [String ''t'', String ''u''])]
       [(''name'', String ''b''), (''zone'', String ''z1''), (''tags'', Array [String ''t'', String ''v''])])
     = [Diff '''' DiffTypeModified Null Null
          [(''name'', Diff ''name'' DiffTypeModified (String ''a'') (String ''b'') []),
           (''tags'', Diff ''tags'' DiffTypeModified Null Null
              [(''[1]'', Diff ''tags[1]'' DiffTypeModified (String ''u'') (String ''v'') [])])],
        Diff ''name'' DiffTypeModified (String ''a'') (String ''b'') [],
        Diff ''tags'' DiffTypeModified Null Null
              [(''[1]'', Diff ''tags[1]'' DiffTypeModified (String ''u'') (String ''v'') [])],
        Diff ''tags[1]'' DiffTypeModified (String ''u'') (String ''v'') []]"
    by code_simp
  show "list_all (\<lambda>n. list_all (\<lambda>kc. Type (snd kc) \<noteq> DiffTypeEqual) (Children n))
       (allNodes (Compare (NewDiffer None False)
       [(''name'', String ''a''), (''zone'', String ''z1''), (''tags'', Array [String ''t'', String ''u''])]
       [(''name'', String ''b''), (''zone'', String ''z1''), (''tags'', Array [String ''t'', String ''v''])]))"
    using Compare_children_never_Equal [of "NewDiffer None False"
       "[(''name'', String ''a''), (''zone'', String ''z1''), (''tags'', Array [String ''t'', String ''u''])]"
       "[(''name'', String ''b''), (''zone'', String ''z1''), (''tags'', Array [String ''t'', String ''v''])]"]
    unfolding list_all_iff by blast
qed

end
